theory Spec2Isabelle
  imports Main "HOL-Library.Word"
begin

unbundle bit_operations_syntax

section \<open>The 1-wire bus\<close>

text \<open>
  Both headers drive the bus with the same three electrical moves (\<open>pullBusLow\<close>,
  \<open>releaseBus\<close>, \<open>sampleBus\<close>) and with \<open>_delay_us\<close>. The moves act on hardware
  registers; here each of them appends an event to a log of the line, and the level that
  \<open>sampleBus\<close> reads is given by the environment as a function of everything that has
  happened on the line so far (\<open>True\<close> is a high line). \<open>TimerWait\<close> is the time
  between two runs of the timer interrupt, in timer tics. Interrupt masking
  (\<open>cli\<close>/\<open>sei\<close>, \<open>noInterrupts\<close>/\<open>interrupts\<close>) and \<open>Serial\<close> output are not part of
  the model.
\<close>

type_synonym byte = "8 word"

datatype bus_event = PulledLow | Released | Sampled bool | DelayUs nat | TimerWait byte

type_synonym bus_line = "bus_event list \<Rightarrow> bool"

record hw =
  busLog :: "bus_event list"

definition pullBusLow :: "'a hw_scheme \<Rightarrow> 'a hw_scheme" where
  "pullBusLow s = s\<lparr>busLog := busLog s @ [PulledLow]\<rparr>"

definition releaseBus :: "'a hw_scheme \<Rightarrow> 'a hw_scheme" where
  "releaseBus s = s\<lparr>busLog := busLog s @ [Released]\<rparr>"

definition sampleBus :: "bus_line \<Rightarrow> 'a hw_scheme \<Rightarrow> bool \<times> 'a hw_scheme" where
  "sampleBus line s = (line (busLog s), s\<lparr>busLog := busLog s @ [Sampled (line (busLog s))]\<rparr>)"

definition delay_us :: "nat \<Rightarrow> 'a hw_scheme \<Rightarrow> 'a hw_scheme" where
  "delay_us n s = s\<lparr>busLog := busLog s @ [DelayUs n]\<rparr>"

section \<open>AsyncTemperatures.h: constants\<close>

definition stackSize :: nat where "stackSize = 20"

definition STARTCONVO :: byte where "STARTCONVO = 0x44"
definition READSCRATCH :: byte where "READSCRATCH = 0xBE"
definition SELECTDEVICE :: byte where "SELECTDEVICE = 0x55"
definition SKIPROMWILDCARD :: byte where "SKIPROMWILDCARD = 0xCC"

definition Success :: byte where "Success = 0x00"
definition StillBusy :: byte where "StillBusy = 0x01"
definition NoDeviceOnBus :: byte where "NoDeviceOnBus = 0x02"
definition DevicesAreBusy :: byte where "DevicesAreBusy = 0x04"

definition BusLow :: byte where "BusLow = 1"
definition ReadRemainingBits :: byte where "ReadRemainingBits = 2"
definition SendRemainingBits :: byte where "SendRemainingBits = 3"
definition SendRemainingIDBytes :: byte where "SendRemainingIDBytes = 4"
definition WaitForBusRelease :: byte where "WaitForBusRelease = 5"
definition BusRelease :: byte where "BusRelease = 6"
definition ClearBusyStatus :: byte where "ClearBusyStatus = 7"
definition BusSample :: byte where "BusSample = 8"
definition TestTimings :: byte where "TestTimings = 9"
definition ReadScratchPad :: byte where "ReadScratchPad = 10"
definition StartIDSend :: byte where "StartIDSend = 11"
definition Reset :: byte where "Reset = 12"
definition Yield :: byte where "Yield = 13"

definition Micros55 :: byte where "Micros55 = 8"
definition Micros60 :: byte where "Micros60 = 10"
definition Micros64 :: byte where "Micros64 = 10"
definition Micros70 :: byte where "Micros70 = 11"
definition Micros410 :: byte where "Micros410 = 96"
definition Micros480 :: byte where "Micros480 = 110"

section \<open>AsyncTemperatures.h: the state of the reader\<close>

text \<open>
  The fields of \<open>class AsyncTemperatureReader\<close>, the globals \<open>stackSnapshot\<close> and the
  two diagnostic pins (\<open>LED_ALERT\<close>, \<open>debugPin\<close> with the static \<open>debugOutput\<close> of
  \<open>toggleDebugLine\<close>). \<open>deviceAddr\<close> and \<open>sPad\<close> point to buffers of the caller; the
  model holds the buffers themselves.
\<close>

record reader = hw +
  stackHighTide :: int
  theCode :: "byte list"
  topOfStack :: byte
  status :: byte
  receiveRegister :: byte
  deviceAddr :: "byte list"
  idByteIndex :: byte
  sPad :: "byte list"
  stackSnapshot :: "byte list"
  ledAlert :: bool
  debugPin :: bool
  debugOutput :: bool

text \<open>
  An access outside an array is undefined behaviour in the source. The model stops there
  with the array that was left.
\<close>

datatype vm_error =
  StackIndexOutOfRange | SnapshotIndexOutOfRange | ScratchpadIndexOutOfRange
  | AddressIndexOutOfRange

definition bindE :: "'e + 'a \<Rightarrow> ('a \<Rightarrow> 'e + 'b) \<Rightarrow> 'e + 'b" where
  "bindE m f = (case m of Inl e \<Rightarrow> Inl e | Inr x \<Rightarrow> f x)"

fun seqE :: "('a \<Rightarrow> 'e + 'a) list \<Rightarrow> 'a \<Rightarrow> 'e + 'a" where
  "seqE [] s = Inr s"
| "seqE (f # fs) s = bindE (f s) (seqE fs)"

definition toggleDebugLine :: "reader \<Rightarrow> reader" where
  "toggleDebugLine s = s\<lparr>debugPin := debugOutput s, debugOutput := \<not> debugOutput s\<rparr>"

definition flushStack :: "reader \<Rightarrow> reader" where
  "flushStack s = s\<lparr>topOfStack := 0\<rparr>"

text \<open>
  The two snapshot loops of \<open>push\<close>: every slot is set to \<open>0xFF\<close>, then the slots below
  \<open>topOfStack\<close> are copied from \<open>theCode\<close>. With \<open>topOfStack\<close> above \<open>stackSize\<close> the second
  loop leaves both arrays; \<open>push\<close> checks for it.
\<close>

definition snapshot :: "reader \<Rightarrow> byte list" where
  "snapshot s =
     map (\<lambda>i. if i < unat (topOfStack s) then theCode s ! i else 0xFF) [0..<stackSize]"

definition push :: "byte \<Rightarrow> reader \<Rightarrow> vm_error + reader" where
  "push opCode s =
     (if unat (topOfStack s) \<ge> stackSize then
        (if unat (topOfStack s) \<le> stackSize
         then Inr (s\<lparr>ledAlert := True, stackSnapshot := snapshot s\<rparr>)
         else Inl SnapshotIndexOutOfRange)
      else
        (let s1 = s\<lparr>theCode := (theCode s)[unat (topOfStack s) := opCode],
                     topOfStack := topOfStack s + 1\<rparr>
         in if int (unat (topOfStack s1)) \<ge> stackHighTide s1
            then Inr (s1\<lparr>stackHighTide := int (unat (topOfStack s1)),
                         stackSnapshot := snapshot s1\<rparr>)
            else Inr s1))"

text \<open>
  \<open>pop\<close> is \<open>theCode[--topOfStack]\<close>: the index is decremented as a byte (0 wraps to 255)
  and the slot is read; there is no value when the slot is outside the array.
\<close>

definition pop :: "reader \<Rightarrow> byte option \<times> reader" where
  "pop s =
     (let t = topOfStack s - 1
      in (if unat t < stackSize then Some (theCode s ! unat t) else None,
          s\<lparr>topOfStack := t\<rparr>))"

definition popE :: "reader \<Rightarrow> vm_error + (byte \<times> reader)" where
  "popE s = (case pop s of (None, s') \<Rightarrow> Inl StackIndexOutOfRange
                          | (Some v, s') \<Rightarrow> Inr (v, s'))"

definition pushSendOneByte :: "byte \<Rightarrow> reader \<Rightarrow> vm_error + reader" where
  "pushSendOneByte b = seqE [push b, push 8, push SendRemainingBits]"

definition YieldFor :: "byte \<Rightarrow> reader \<Rightarrow> vm_error + reader" where
  "YieldFor numberOfTics = seqE [push numberOfTics, push Yield]"

section \<open>AsyncTemperatures.h: the interpreter\<close>

text \<open>
  One definition for each case of the \<open>switch\<close> in \<open>doTimeslice\<close>, run after the opcode
  has been popped. A case either falls out of the \<open>switch\<close> and the loop goes on
  (\<open>Continue\<close>), or it returns from \<open>doTimeslice\<close> with a holdoff (\<open>Return\<close>).
\<close>

datatype 'a outcome = Continue 'a | Return byte 'a

definition continue :: "(vm_error + reader) \<Rightarrow> vm_error + reader outcome" where
  "continue m = bindE m (\<lambda>s. Inr (Continue s))"

definition exec_BusLow :: "reader \<Rightarrow> vm_error + reader outcome" where
  "exec_BusLow s = Inr (Continue (pullBusLow s))"

definition exec_BusRelease :: "reader \<Rightarrow> vm_error + reader outcome" where
  "exec_BusRelease s = Inr (Continue (delay_us 10 (releaseBus s)))"

definition exec_SendRemainingBits :: "reader \<Rightarrow> vm_error + reader outcome" where
  "exec_SendRemainingBits s =
     bindE (popE s) (\<lambda>(bitsToGo, s1).
     bindE (popE s1) (\<lambda>(toSend, s2).
       let theBitToSend = toSend AND 0x01;
           bitsToGo' = bitsToGo - 1
       in continue
            (bindE (if bitsToGo' \<noteq> 0
                    then seqE [push (drop_bit 1 toSend), push bitsToGo', push SendRemainingBits] s2
                    else Inr s2) (\<lambda>s3.
             if theBitToSend = 1
             then YieldFor Micros64 (releaseBus (delay_us 6 (pullBusLow s3)))
             else seqE [push BusRelease, YieldFor Micros60] (pullBusLow s3)))))"

definition exec_ClearBusyStatus :: "reader \<Rightarrow> vm_error + reader outcome" where
  "exec_ClearBusyStatus s = Inr (Continue (s\<lparr>status := status s AND NOT StillBusy\<rparr>))"

definition exec_ReadScratchPad :: "reader \<Rightarrow> vm_error + reader outcome" where
  "exec_ReadScratchPad s =
     continue
       (bindE (push Reset s) (\<lambda>s1.
          seqE [push 0, push ReadRemainingBits, pushSendOneByte READSCRATCH,
                push StartIDSend, push Reset] (s1\<lparr>receiveRegister := 0\<rparr>)))"

definition exec_ReadRemainingBits :: "bus_line \<Rightarrow> reader \<Rightarrow> vm_error + reader outcome" where
  "exec_ReadRemainingBits line s =
     (let s1 = delay_us 9 (releaseBus (delay_us 6 (pullBusLow (s\<lparr>debugPin := False\<rparr>))));
          (thisBit, s2) = sampleBus line s1;
          s3 = s2\<lparr>debugPin := True\<rparr>
      in bindE (popE s3) (\<lambda>(bitPos, s4).
           let s5 = (if thisBit
                     then s4\<lparr>receiveRegister :=
                                receiveRegister s4 OR push_bit (unat bitPos mod 8) 1\<rparr>
                     else s4);
               bitPos' = bitPos + 1
           in continue
                (bindE
                   (if unat bitPos' mod 8 = 0 then
                      (let sPadIndx = (word_of_nat (unat bitPos' div 8) :: byte) - 1
                       in if unat sPadIndx < length (sPad s5) then
                            (let s6 = s5\<lparr>sPad := (sPad s5)[unat sPadIndx := receiveRegister s5],
                                         receiveRegister := 0\<rparr>
                             in if unat bitPos' < 72
                                then seqE [push bitPos', push ReadRemainingBits] s6
                                else Inr s6)
                          else Inl ScratchpadIndexOutOfRange)
                    else seqE [push bitPos', push ReadRemainingBits] s5)
                   (YieldFor Micros55))))"

definition exec_StartIDSend :: "reader \<Rightarrow> vm_error + reader outcome" where
  "exec_StartIDSend s =
     continue (seqE [push SendRemainingIDBytes, pushSendOneByte SELECTDEVICE]
                 (s\<lparr>idByteIndex := 0\<rparr>))"

definition exec_SendRemainingIDBytes :: "reader \<Rightarrow> vm_error + reader outcome" where
  "exec_SendRemainingIDBytes s =
     (if unat (idByteIndex s) < 8 then
        continue
          (bindE (push SendRemainingIDBytes s) (\<lambda>s1.
             if unat (idByteIndex s1) < length (deviceAddr s1) then
               seqE [push (deviceAddr s1 ! unat (idByteIndex s1)), push 8,
                     push SendRemainingBits]
                 (s1\<lparr>idByteIndex := idByteIndex s1 + 1\<rparr>)
             else Inl AddressIndexOutOfRange))
      else Inr (Continue s))"

definition exec_Reset :: "reader \<Rightarrow> vm_error + reader outcome" where
  "exec_Reset s =
     continue (seqE [YieldFor Micros410, push BusSample, YieldFor Micros70,
                     push BusRelease, YieldFor Micros480, push BusLow] s)"

definition exec_Yield :: "reader \<Rightarrow> vm_error + reader outcome" where
  "exec_Yield s = bindE (popE s) (\<lambda>(tics, s1). Inr (Return tics s1))"

definition exec_BusSample :: "bus_line \<Rightarrow> reader \<Rightarrow> vm_error + reader outcome" where
  "exec_BusSample line s =
     (let (thisBit, s1) = sampleBus line (releaseBus s)
      in if thisBit
         then Inr (Continue (s1\<lparr>status := status s1 OR NoDeviceOnBus, ledAlert := True\<rparr>))
         else Inr (Continue s1))"

definition exec_WaitForBusRelease :: "bus_line \<Rightarrow> reader \<Rightarrow> vm_error + reader outcome" where
  "exec_WaitForBusRelease line s =
     (let (thisBit, s1) = sampleBus line (releaseBus s)
      in if \<not> thisBit
         then continue (seqE [push WaitForBusRelease, YieldFor 255] s1)
         else Inr (Continue (s1\<lparr>status := status s1 AND NOT DevicesAreBusy\<rparr>)))"

text \<open>
  \<open>toGo\<close> is an \<open>unsigned int\<close> of 16 bits, put together from the two operand bytes;
  the high and the low byte of the decremented count are pushed back.
\<close>

definition exec_TestTimings :: "reader \<Rightarrow> vm_error + reader outcome" where
  "exec_TestTimings s =
     (let s0 = delay_us 10 (releaseBus s)
      in bindE (popE s0) (\<lambda>(loByte, s1).
         bindE (popE s1) (\<lambda>(hiByte, s2).
           let toGo = (push_bit 8 (ucast hiByte) OR ucast loByte :: 16 word);
               toGo' = (if unat toGo > 1 then toGo - 1 else toGo)
           in continue
                (bindE (if unat toGo > 1
                        then seqE [push (ucast (drop_bit 8 toGo')),
                                   push (ucast (toGo' AND 0xFF)), push TestTimings] s2
                        else Inr s2) (\<lambda>s3.
                 let s4 = pullBusLow s3;
                     r = unat toGo' mod 5
                 in if r = 0 then YieldFor Micros480 s4
                    else if r = 1 then YieldFor Micros70 s4
                    else if r = 2 then YieldFor Micros64 s4
                    else if r = 3 then YieldFor Micros55 (toggleDebugLine s4)
                    else YieldFor Micros55 s4)))))"

text \<open>
  One turn of the \<open>do ... while (true)\<close> loop of \<open>doTimeslice\<close>: the test for the empty
  stack, the fetch \<open>theCode[--topOfStack]\<close> and the \<open>switch\<close>. A byte that is no opcode
  matches no case.
\<close>

definition step :: "bus_line \<Rightarrow> reader \<Rightarrow> vm_error + reader outcome" where
  "step line s =
     (if topOfStack s = 0 then Inr (Return 255 s)
      else bindE (popE s) (\<lambda>(opCode, s1).
        if opCode = BusLow then exec_BusLow s1
        else if opCode = BusRelease then exec_BusRelease s1
        else if opCode = SendRemainingBits then exec_SendRemainingBits s1
        else if opCode = ClearBusyStatus then exec_ClearBusyStatus s1
        else if opCode = ReadScratchPad then exec_ReadScratchPad s1
        else if opCode = ReadRemainingBits then exec_ReadRemainingBits line s1
        else if opCode = StartIDSend then exec_StartIDSend s1
        else if opCode = SendRemainingIDBytes then exec_SendRemainingIDBytes s1
        else if opCode = Reset then exec_Reset s1
        else if opCode = Yield then exec_Yield s1
        else if opCode = BusSample then exec_BusSample line s1
        else if opCode = WaitForBusRelease then exec_WaitForBusRelease line s1
        else if opCode = TestTimings then exec_TestTimings s1
        else Inr (Continue s1)))"

text \<open>
  \<open>doTimeslice\<close> loops until a case returns. The loop has no bound in the source, so the
  result is optional: \<open>None\<close> is a call that never returns.
\<close>

partial_function (option) doTimeslice ::
  "bus_line \<Rightarrow> reader \<Rightarrow> (vm_error + byte \<times> reader) option" where
  "doTimeslice line s =
     (case step line s of
        Inl e \<Rightarrow> Some (Inl e)
      | Inr (Return tics s') \<Rightarrow> Some (Inr (tics, s'))
      | Inr (Continue s') \<Rightarrow> doTimeslice line s')"

text \<open>
  The interrupt routine of TIMER2 gives the interpreter its timeslice and loads the timer
  with the holdoff that \<open>doTimeslice\<close> returns (\<open>OCR2A = doTimeslice()\<close>): the next
  timeslice comes that many tics later.
\<close>

definition ISR_TIMER2_COMPA :: "bus_line \<Rightarrow> reader \<Rightarrow> (vm_error + reader) option" where
  "ISR_TIMER2_COMPA line s =
     (case doTimeslice line s of
        None \<Rightarrow> None
      | Some (Inl e) \<Rightarrow> Some (Inl e)
      | Some (Inr (holdoff, s')) \<Rightarrow>
          Some (Inr (s'\<lparr>busLog := busLog s' @ [TimerWait holdoff]\<rparr>)))"

section \<open>AsyncTemperatures.h: the sessions\<close>

definition readScratchpadAsync :: "byte list \<Rightarrow> byte list \<Rightarrow> reader \<Rightarrow> vm_error + reader" where
  "readScratchpadAsync deviceAddress scratchPad s =
     seqE [push ClearBusyStatus, push ReadScratchPad]
       ((flushStack (s\<lparr>deviceAddr := deviceAddress, sPad := scratchPad\<rparr>))
          \<lparr>status := StillBusy\<rparr>)"

definition resetAsync :: "reader \<Rightarrow> vm_error + reader" where
  "resetAsync s =
     seqE [push ClearBusyStatus, push Reset] ((flushStack s)\<lparr>status := StillBusy\<rparr>)"

definition convertAllTemperaturesAsync :: "reader \<Rightarrow> vm_error + reader" where
  "convertAllTemperaturesAsync s =
     seqE [push WaitForBusRelease, pushSendOneByte STARTCONVO,
           pushSendOneByte SKIPROMWILDCARD, push Reset]
       ((flushStack s)\<lparr>status := DevicesAreBusy\<rparr>)"

definition doTestTimings :: "16 word \<Rightarrow> reader \<Rightarrow> vm_error + reader" where
  "doTestTimings repeats s =
     seqE [push ClearBusyStatus, push BusRelease, push (ucast (drop_bit 8 repeats)),
           push (ucast (repeats AND 0xFF)), push TestTimings]
       ((flushStack s)\<lparr>status := StillBusy\<rparr>)"

definition getStatus :: "reader \<Rightarrow> byte" where
  "getStatus s = status s"

section \<open>SensorDiscovery.h\<close>

definition SEARCHROM :: byte where "SEARCHROM = 0xF0"

text \<open>
  The fields of \<open>class SensorDiscovery\<close>. \<open>inputBuf\<close> points to the 8-byte buffer of the
  caller; the model holds the buffer itself. The bit macros index both arrays with
  \<open>i/8\<close>, for the depths 0 to 63 that the callers pass.
\<close>

record discovery = hw +
  inputBuf :: "byte list"
  fork :: "byte list"
  firstTime :: bool

definition setBitInID :: "nat \<Rightarrow> discovery \<Rightarrow> discovery" where
  "setBitInID i s =
     s\<lparr>inputBuf := (inputBuf s)[i div 8 := inputBuf s ! (i div 8) OR push_bit (i mod 8) 1]\<rparr>"

definition unsetBitInID :: "nat \<Rightarrow> discovery \<Rightarrow> discovery" where
  "unsetBitInID i s =
     s\<lparr>inputBuf := (inputBuf s)[i div 8 := inputBuf s ! (i div 8) AND NOT (push_bit (i mod 8) 1)]\<rparr>"

definition isBitInID :: "discovery \<Rightarrow> nat \<Rightarrow> bool" where
  "isBitInID s i \<longleftrightarrow> inputBuf s ! (i div 8) AND push_bit (i mod 8) 1 \<noteq> 0"

definition setForkPoint :: "nat \<Rightarrow> discovery \<Rightarrow> discovery" where
  "setForkPoint i s =
     s\<lparr>fork := (fork s)[i div 8 := fork s ! (i div 8) OR push_bit (i mod 8) 1]\<rparr>"

definition unsetForkPoint :: "nat \<Rightarrow> discovery \<Rightarrow> discovery" where
  "unsetForkPoint i s =
     s\<lparr>fork := (fork s)[i div 8 := fork s ! (i div 8) AND NOT (push_bit (i mod 8) 1)]\<rparr>"

definition isForkPoint :: "discovery \<Rightarrow> nat \<Rightarrow> bool" where
  "isForkPoint s i \<longleftrightarrow> fork s ! (i div 8) AND push_bit (i mod 8) 1 \<noteq> 0"

fun lastForkBelow :: "nat \<Rightarrow> discovery \<Rightarrow> int" where
  "lastForkBelow 0 s = - 1"
| "lastForkBelow (Suc i) s = (if isForkPoint s i then int i else lastForkBelow i s)"

definition findLastForkPoint :: "discovery \<Rightarrow> int" where
  "findLastForkPoint s = lastForkBelow 64 s"

definition readBit :: "bus_line \<Rightarrow> discovery \<Rightarrow> bool \<times> discovery" where
  "readBit line s =
     (let (b, s1) = sampleBus line (delay_us 9 (releaseBus (delay_us 6 (pullBusLow s))))
      in (b, delay_us 60 s1))"

definition ResetBus :: "bus_line \<Rightarrow> discovery \<Rightarrow> bool \<times> discovery" where
  "ResetBus line s =
     (let (b, s1) = sampleBus line (delay_us 70 (releaseBus (delay_us 480 (pullBusLow s))))
      in (b, delay_us 410 s1))"

definition sendBit :: "byte \<Rightarrow> discovery \<Rightarrow> discovery" where
  "sendBit b s =
     (if b = 1 then delay_us 64 (releaseBus (delay_us 6 (pullBusLow s)))
      else delay_us 10 (releaseBus (delay_us 60 (pullBusLow s))))"

fun sendBits :: "nat \<Rightarrow> byte \<Rightarrow> discovery \<Rightarrow> discovery" where
  "sendBits 0 b s = s"
| "sendBits (Suc n) b s = sendBits n (drop_bit 1 b) (sendBit (b AND 0x01) s)"

definition sendByte :: "byte \<Rightarrow> discovery \<Rightarrow> discovery" where
  "sendByte b s = sendBits 8 b s"

definition begin_search :: "discovery \<Rightarrow> discovery" where
  "begin_search s = s\<lparr>inputBuf := replicate 8 0, fork := replicate 8 0, firstTime := True\<rparr>"

definition recordAndSend :: "nat \<Rightarrow> byte \<Rightarrow> discovery \<Rightarrow> discovery" where
  "recordAndSend searchDepth chooseRight s =
     (if chooseRight = 1 then sendBit 1 (setBitInID searchDepth s)
      else sendBit 0 (unsetBitInID searchDepth s))"

definition searchRound ::
  "bus_line \<Rightarrow> int \<Rightarrow> nat \<Rightarrow> byte \<Rightarrow> discovery \<Rightarrow> (byte \<times> discovery) outcome" where
  "searchRound line frozenTreeDepth searchDepth chooseRight s =
     (let (b1, s1) = readBit line s;
          (b0, s2) = readBit line s1;
          response = (push_bit 1 (of_bool b1) OR of_bool b0 :: byte)
      in if response = 2 then Continue (1, recordAndSend searchDepth 1 s2)
         else if response = 1 then Continue (0, recordAndSend searchDepth 0 s2)
         else if response = 0 then
           (if int searchDepth \<le> frozenTreeDepth
            then Continue (of_bool (isBitInID s2 searchDepth),
                           recordAndSend searchDepth (of_bool (isBitInID s2 searchDepth)) s2)
            else Continue (0, recordAndSend searchDepth 0 (setForkPoint searchDepth s2)))
         else if response = 3 then Return 2 (chooseRight, s2)
         else Continue (chooseRight, recordAndSend searchDepth chooseRight s2))"

function searchLoop ::
  "bus_line \<Rightarrow> int \<Rightarrow> nat \<Rightarrow> byte \<Rightarrow> discovery \<Rightarrow> byte \<times> discovery" where
  "searchLoop line frozenTreeDepth searchDepth chooseRight s =
     (if searchDepth < 64 then
        (case searchRound line frozenTreeDepth searchDepth chooseRight s of
           Return code (c, s') \<Rightarrow> (code, s')
         | Continue (c, s') \<Rightarrow> searchLoop line frozenTreeDepth (Suc searchDepth) c s')
      else (0, s))"
  by pat_completeness auto
termination
  by (relation "measure (\<lambda>(line, f, d, c, s). 64 - d)") auto

declare searchLoop.simps [simp del]

definition searchFrom :: "bus_line \<Rightarrow> int \<Rightarrow> discovery \<Rightarrow> byte \<times> discovery" where
  "searchFrom line frozenTreeDepth s =
     (let (resp, s1) = ResetBus line s
      in if resp then (1, s1)
         else searchLoop line frozenTreeDepth 0 42 (sendByte SEARCHROM s1))"

definition backtrack :: "nat \<Rightarrow> discovery \<Rightarrow> discovery" where
  "backtrack f s = setBitInID f (unsetForkPoint f (fold unsetBitInID [Suc f..<64] s))"

definition findNextDevice :: "bus_line \<Rightarrow> discovery \<Rightarrow> byte \<times> discovery" where
  "findNextDevice line s =
     (if firstTime s then searchFrom line (- 1) (s\<lparr>firstTime := False\<rparr>)
      else
        (let frozenTreeDepth = findLastForkPoint s
         in if frozenTreeDepth < 0 then (1, s)
            else searchFrom line (frozenTreeDepth + 1) (backtrack (nat frozenTreeDepth) s)))"


section \<open>Initial states and drivers\<close>

text \<open>
  The reader is a global object, so it starts zero-initialised, with no buffer attached.
  The discovery object is started by \<open>begin\<close>.
\<close>

definition power_on :: reader where
  "power_on = \<lparr>busLog = [], stackHighTide = 0, theCode = replicate 20 0, topOfStack = 0,
     status = 0, receiveRegister = 0, deviceAddr = [], idByteIndex = 0, sPad = [],
     stackSnapshot = replicate 20 0, ledAlert = False, debugPin = False,
     debugOutput = False\<rparr>"

definition search_start :: discovery where
  "search_start = begin_search \<lparr>busLog = [], inputBuf = [], fork = [], firstTime = False\<rparr>"

text \<open>The array \<open>theCode\<close> has \<open>stackSize\<close> slots and the top index is within it.\<close>

definition stack_ok :: "reader \<Rightarrow> bool" where
  "stack_ok s \<longleftrightarrow> length (theCode s) = stackSize \<and> unat (topOfStack s) \<le> stackSize"

text \<open>
  A sequence of calls of \<open>push\<close> and \<open>pop\<close>. It stops with \<open>None\<close> at an access
  outside an array. \<open>underflows ops n\<close> tells whether the sequence pops an empty stack
  when it starts with \<open>n\<close> bytes on the stack.
\<close>

datatype stack_op = Push byte | Pop

fun run_ops :: "stack_op list \<Rightarrow> reader \<Rightarrow> reader option" where
  "run_ops [] s = Some s"
| "run_ops (Push b # ops) s =
     (case push b s of Inl e \<Rightarrow> None | Inr s' \<Rightarrow> run_ops ops s')"
| "run_ops (Pop # ops) s =
     (case pop s of (None, s') \<Rightarrow> None | (Some v, s') \<Rightarrow> run_ops ops s')"

fun underflows :: "stack_op list \<Rightarrow> nat \<Rightarrow> bool" where
  "underflows [] n = False"
| "underflows (Push b # ops) n = underflows ops (min stackSize (Suc n))"
| "underflows (Pop # ops) n = (n = 0 \<or> underflows ops (n - 1))"

text \<open>\<open>n\<close> timer interrupts in a row.\<close>

fun interrupts :: "nat \<Rightarrow> bus_line \<Rightarrow> reader \<Rightarrow> (vm_error + reader) option" where
  "interrupts 0 line s = Some (Inr s)"
| "interrupts (Suc n) line s =
     (case ISR_TIMER2_COMPA line s of
        None \<Rightarrow> None
      | Some (Inl e) \<Rightarrow> Some (Inl e)
      | Some (Inr s') \<Rightarrow> interrupts n line s')"

text \<open>\<open>n\<close> calls of \<open>findNextDevice\<close> in a row, with the codes they return.\<close>

fun findNextDevice_times :: "nat \<Rightarrow> bus_line \<Rightarrow> discovery \<Rightarrow> byte list \<times> discovery" where
  "findNextDevice_times 0 line s = ([], s)"
| "findNextDevice_times (Suc n) line s =
     (let (code, s1) = findNextDevice line s;
          (codes, s2) = findNextDevice_times n line s1
      in (code # codes, s2))"

text \<open>The events that one bit sent, one bit read and one bus reset leave in the log.\<close>

definition sendBit_events :: "bool \<Rightarrow> bus_event list" where
  "sendBit_events b =
     (if b then [PulledLow, DelayUs 6, Released, DelayUs 64]
      else [PulledLow, DelayUs 60, Released, DelayUs 10])"

definition readBit_events :: "bool \<Rightarrow> bus_event list" where
  "readBit_events b = [PulledLow, DelayUs 6, Released, DelayUs 9, Sampled b, DelayUs 60]"

definition reset_events :: "bool \<Rightarrow> bus_event list" where
  "reset_events b = [PulledLow, DelayUs 480, Released, DelayUs 70, Sampled b, DelayUs 410]"

text \<open>Lines and states that the properties below are tried on.\<close>

definition full_stack :: reader where
  "full_stack = power_on\<lparr>topOfStack := 20\<rparr>"

definition no_device_line :: bus_line where
  "no_device_line log = True"

definition all_low_line :: bus_line where
  "all_low_line log = False"

definition high_then_low :: bus_line where
  "high_then_low log \<longleftrightarrow> Sampled True \<notin> set log \<and> Sampled False \<notin> set log"

definition low_then_high :: bus_line where
  "low_then_high log \<longleftrightarrow> Sampled True \<in> set log \<or> Sampled False \<in> set log"

definition two_forks :: discovery where
  "two_forks = \<lparr>busLog = [], inputBuf = [0x05, 0, 0, 0, 0, 0, 0, 0],
                 fork = [0x24, 0, 0, 0, 0, 0, 0, 0], firstTime = False\<rparr>"

definition exhausted :: discovery where
  "exhausted = search_start\<lparr>firstTime := False\<rparr>"

definition awaiting_presence :: reader where
  "awaiting_presence = power_on\<lparr>theCode := [7, 96, 13, 8] @ replicate 16 0,
     topOfStack := 4, status := StillBusy\<rparr>"

text \<open>
  The state that an outcome carries, and \<open>doTimeslice\<close> with a bound on the turns of
  its loop: \<open>None\<close> when the bound is reached before the call returns.
\<close>

fun out_state :: "'a outcome \<Rightarrow> 'a" where
  "out_state (Continue s) = s"
| "out_state (Return tics s) = s"

fun doTimeslice_within ::
  "nat \<Rightarrow> bus_line \<Rightarrow> reader \<Rightarrow> (vm_error + byte \<times> reader) option" where
  "doTimeslice_within 0 line s = None"
| "doTimeslice_within (Suc n) line s =
     (case step line s of
        Inl e \<Rightarrow> Some (Inl e)
      | Inr (Return tics s') \<Rightarrow> Some (Inr (tics, s'))
      | Inr (Continue s') \<Rightarrow> doTimeslice_within n line s')"

text \<open>
  What the main program and the timer can do to the reader: start one of the four
  sessions, or run the timer interrupt. \<open>run_calls\<close> does a list of these in order and
  stops at the first that does not return or leaves an array. A buffer handed to
  \<open>readScratchpadAsync\<close> has 8 address bytes, respectively 9 scratchpad bytes.
\<close>

datatype call =
    StartReset
  | StartReadScratchpad "byte list" "byte list"
  | StartConvertAll
  | StartTestTimings "16 word"
  | TimerInterrupt

fun do_call :: "call \<Rightarrow> bus_line \<Rightarrow> reader \<Rightarrow> (vm_error + reader) option" where
  "do_call StartReset line s = Some (resetAsync s)"
| "do_call (StartReadScratchpad deviceAddress scratchPad) line s =
     Some (readScratchpadAsync deviceAddress scratchPad s)"
| "do_call StartConvertAll line s = Some (convertAllTemperaturesAsync s)"
| "do_call (StartTestTimings repeats) line s = Some (doTestTimings repeats s)"
| "do_call TimerInterrupt line s = ISR_TIMER2_COMPA line s"

fun run_calls :: "call list \<Rightarrow> bus_line \<Rightarrow> reader \<Rightarrow> (vm_error + reader) option" where
  "run_calls [] line s = Some (Inr s)"
| "run_calls (c # cs) line s =
     (case do_call c line s of
        None \<Rightarrow> None
      | Some (Inl e) \<Rightarrow> Some (Inl e)
      | Some (Inr s') \<Rightarrow> run_calls cs line s')"

fun call_ok :: "call \<Rightarrow> bool" where
  "call_ok (StartReadScratchpad deviceAddress scratchPad) =
     (length deviceAddress = 8 \<and> length scratchPad = 9)"
| "call_ok c = True"

text \<open>
  The bytes on the stack from the bottom up, the opcode on top of it, and the relation
  between the busy flag and the stack that the sessions with \<open>ClearBusyStatus\<close> keep.
\<close>

definition live_stack :: "reader \<Rightarrow> byte list" where
  "live_stack s = take (unat (topOfStack s)) (theCode s)"

definition top_opcode :: "reader \<Rightarrow> byte option" where
  "top_opcode s =
     (if topOfStack s = 0 \<or> unat (topOfStack s) > stackSize then None
      else Some (theCode s ! (unat (topOfStack s) - 1)))"

definition busy_flag_tracks_stack :: "reader \<Rightarrow> bool" where
  "busy_flag_tracks_stack s =
     (if topOfStack s = 0 then status s AND StillBusy = 0
      else status s AND StillBusy = StillBusy \<and> theCode s ! 0 = ClearBusyStatus)"

text \<open>
  The events that the interpreter leaves in the log. A bus reset takes three timeslices;
  a bit sent and a bit read take one each. The level of the presence sample is read after
  \<open>reset_before_sample\<close>.
\<close>

definition reset_before_sample :: "bus_event list" where
  "reset_before_sample =
     [PulledLow, TimerWait Micros480, Released, DelayUs 10, TimerWait Micros70, Released]"

definition reset_slices :: "bool \<Rightarrow> bus_event list" where
  "reset_slices b = reset_before_sample @ [Sampled b, TimerWait Micros410]"

definition send_slice :: "bool \<Rightarrow> bus_event list" where
  "send_slice b =
     (if b then [PulledLow, DelayUs 6, Released, TimerWait Micros64]
      else [PulledLow, TimerWait Micros60, Released, DelayUs 10])"

fun bits_slices :: "nat \<Rightarrow> byte \<Rightarrow> bus_event list" where
  "bits_slices 0 v = []"
| "bits_slices (Suc k) v = send_slice (v AND 0x01 = 1) @ bits_slices k (drop_bit 1 v)"

definition byte_slices :: "byte \<Rightarrow> bus_event list" where
  "byte_slices v = bits_slices 8 v"

definition read_slice :: "bool \<Rightarrow> bus_event list" where
  "read_slice b = [PulledLow, DelayUs 6, Released, DelayUs 9, Sampled b, TimerWait Micros55]"

text \<open>
  A simulated device with a fixed scratchpad. It counts the samples taken so far: it
  answers the first reset with a presence pulse (a low line), gives bit \<open>k - 1\<close> of its
  scratchpad, lowest bit of each byte first, at the sample number \<open>k\<close> from 1 to 72,
  and pulls the line low again at any later sample.
\<close>

fun sample_count :: "bus_event list \<Rightarrow> nat" where
  "sample_count [] = 0"
| "sample_count (Sampled b # es) = Suc (sample_count es)"
| "sample_count (e # es) = sample_count es"

definition scratch_bit :: "byte list \<Rightarrow> nat \<Rightarrow> bool" where
  "scratch_bit pad i = bit (pad ! (i div 8)) (i mod 8)"

definition scratchpad_device :: "byte list \<Rightarrow> bus_line" where
  "scratchpad_device pad log =
     (let k = sample_count log
      in if 1 \<le> k \<and> k \<le> 72 then scratch_bit pad (k - 1) else False)"

definition read_slices :: "byte list \<Rightarrow> nat \<Rightarrow> bus_event list" where
  "read_slices pad k = concat (map (\<lambda>i. read_slice (scratch_bit pad i)) [k..<72])"

definition read_session_events :: "byte list \<Rightarrow> byte list \<Rightarrow> bus_event list" where
  "read_session_events addr dev =
     reset_slices False @ byte_slices SELECTDEVICE @ concat (map byte_slices addr) @
     byte_slices READSCRATCH @ read_slices dev 0 @ reset_slices False"

definition bit_reads :: "bus_event list \<Rightarrow> nat" where
  "bit_reads log = length (filter (\<lambda>e. e = DelayUs 9) log)"

text \<open>
  More inputs that the properties are tried on: a reader with \<open>ReadRemainingBits\<close> and
  its operand 15 on top of the stack, an address, a scratchpad, and the runs of the reset
  and the conversion session from the initial state.
\<close>

definition read_pending :: reader where
  "read_pending = power_on\<lparr>theCode := [7, 12, 15, 2] @ replicate 16 0, topOfStack := 4,
     receiveRegister := 0x16, sPad := replicate 9 0, status := StillBusy\<rparr>"

definition some_address :: "byte list" where
  "some_address = [0x28, 0xFF, 0x4B, 0x3C, 0x91, 0x16, 0x04, 0xD2]"

definition some_scratchpad :: "byte list" where
  "some_scratchpad = [0x50, 0x05, 0x4B, 0x46, 0x7F, 0xFF, 0x0C, 0x10, 0x1C]"

definition reset_drained :: "(vm_error + bus_event list \<times> byte) option" where
  "reset_drained =
     (case resetAsync power_on of
        Inl e \<Rightarrow> Some (Inl e)
      | Inr s0 \<Rightarrow> map_option (map_sum id (\<lambda>s. (busLog s, status s)))
                   (interrupts 4 all_low_line s0))"

definition reset_expanded :: "(vm_error + byte list) option" where
  "reset_expanded =
     (case resetAsync power_on of
        Inl e \<Rightarrow> Some (Inl e)
      | Inr s0 \<Rightarrow>
          (case step all_low_line s0 of
             Inl e \<Rightarrow> Some (Inl e)
           | Inr r \<Rightarrow> Some (Inr (take (unat (topOfStack (out_state r))) (theCode (out_state r))))))"

definition reset_yields :: "(vm_error + nat) option" where
  "reset_yields =
     map_option (map_sum id (\<lambda>stack. length (filter (\<lambda>b. b = Yield) stack))) reset_expanded"

definition convert_all_stack :: "(vm_error + byte list)" where
  "convert_all_stack = map_sum id live_stack (convertAllTemperaturesAsync power_on)"

section \<open>The interpreter on decoded instructions\<close>

text \<open>
  The proofs about whole sessions read the stack as a list of instructions, each with its
  operands, and run the interpreter on that list. \<open>stk\<close> is the stack as a list with the
  top first; \<open>push_to\<close> and \<open>pop_to\<close> are the states after a push and a pop that stay
  inside the array.
\<close>

definition stk :: "reader \<Rightarrow> byte list" where
  "stk s = rev (take (unat (topOfStack s)) (theCode s))"

definition push_to :: "byte \<Rightarrow> reader \<Rightarrow> reader" where
  "push_to b s = (case push b s of Inr s' \<Rightarrow> s' | Inl e \<Rightarrow> s)"

definition pop_to :: "reader \<Rightarrow> reader" where
  "pop_to s = s\<lparr>topOfStack := topOfStack s - 1\<rparr>"

text \<open>
  An instruction is an opcode with its operand bytes; \<open>enc\<close> gives the bytes as they
  lie on the stack, the opcode on top. \<open>texec\<close> follows the cases of \<open>doTimeslice\<close> on
  a list of instructions that is not bounded, \<open>tstep\<close> is one turn of the loop.
\<close>

datatype instr =
    I_BusLow
  | I_ReadRemainingBits byte
  | I_SendRemainingBits byte byte
  | I_SendRemainingIDBytes
  | I_WaitForBusRelease
  | I_BusRelease
  | I_ClearBusyStatus
  | I_BusSample
  | I_TestTimings byte byte
  | I_ReadScratchPad
  | I_StartIDSend
  | I_Reset
  | I_Yield byte

fun enc :: "instr \<Rightarrow> byte list" where
  "enc I_BusLow = [BusLow]"
| "enc (I_ReadRemainingBits bitPos) = [ReadRemainingBits, bitPos]"
| "enc (I_SendRemainingBits bitsToGo toSend) = [SendRemainingBits, bitsToGo, toSend]"
| "enc I_SendRemainingIDBytes = [SendRemainingIDBytes]"
| "enc I_WaitForBusRelease = [WaitForBusRelease]"
| "enc I_BusRelease = [BusRelease]"
| "enc I_ClearBusyStatus = [ClearBusyStatus]"
| "enc I_BusSample = [BusSample]"
| "enc (I_TestTimings loByte hiByte) = [TestTimings, loByte, hiByte]"
| "enc I_ReadScratchPad = [ReadScratchPad]"
| "enc I_StartIDSend = [StartIDSend]"
| "enc I_Reset = [Reset]"
| "enc (I_Yield tics) = [Yield, tics]"

definition encs :: "instr list \<Rightarrow> byte list" where
  "encs p = concat (map enc p)"

record machine =
  prog :: "instr list"
  m_status :: byte
  m_receive :: byte
  m_addr :: "byte list"
  m_index :: byte
  m_pad :: "byte list"
  m_log :: "bus_event list"

definition test_delay :: "16 word \<Rightarrow> byte" where
  "test_delay toGo =
     (let r = unat toGo mod 5
      in if r = 0 then Micros480 else if r = 1 then Micros70
         else if r = 2 then Micros64 else Micros55)"

fun texec :: "bus_line \<Rightarrow> instr \<Rightarrow> instr list \<Rightarrow> machine \<Rightarrow> machine outcome" where
  "texec line I_BusLow rest m =
     Continue (m\<lparr>prog := rest, m_log := m_log m @ [PulledLow]\<rparr>)"
| "texec line I_BusRelease rest m =
     Continue (m\<lparr>prog := rest, m_log := m_log m @ [Released, DelayUs 10]\<rparr>)"
| "texec line (I_SendRemainingBits bitsToGo toSend) rest m =
     (let again = (if bitsToGo - 1 \<noteq> 0
                   then [I_SendRemainingBits (bitsToGo - 1) (drop_bit 1 toSend)] else [])
      in if toSend AND 0x01 = 1
         then Continue (m\<lparr>prog := I_Yield Micros64 # again @ rest,
                          m_log := m_log m @ [PulledLow, DelayUs 6, Released]\<rparr>)
         else Continue (m\<lparr>prog := I_Yield Micros60 # I_BusRelease # again @ rest,
                          m_log := m_log m @ [PulledLow]\<rparr>))"
| "texec line I_ClearBusyStatus rest m =
     Continue (m\<lparr>prog := rest, m_status := m_status m AND NOT StillBusy\<rparr>)"
| "texec line I_ReadScratchPad rest m =
     Continue (m\<lparr>prog := [I_Reset, I_StartIDSend, I_SendRemainingBits 8 READSCRATCH,
                              I_ReadRemainingBits 0, I_Reset] @ rest,
                     m_receive := 0\<rparr>)"
| "texec line (I_ReadRemainingBits bitPos) rest m =
     (let log1 = m_log m @ [PulledLow, DelayUs 6, Released, DelayUs 9];
          thisBit = line log1;
          log2 = log1 @ [Sampled thisBit];
          reg = (if thisBit then m_receive m OR push_bit (unat bitPos mod 8) 1
                 else m_receive m);
          bitPos' = bitPos + 1
      in if unat bitPos' mod 8 = 0
         then Continue (m\<lparr>prog := I_Yield Micros55 #
                              (if unat bitPos' < 72 then [I_ReadRemainingBits bitPos'] else [])
                              @ rest,
                          m_receive := 0,
                          m_pad := (m_pad m)[unat bitPos' div 8 - 1 := reg],
                          m_log := log2\<rparr>)
         else Continue (m\<lparr>prog := I_Yield Micros55 # I_ReadRemainingBits bitPos' # rest,
                          m_receive := reg, m_log := log2\<rparr>))"
| "texec line I_StartIDSend rest m =
     Continue (m\<lparr>prog := I_SendRemainingBits 8 SELECTDEVICE # I_SendRemainingIDBytes # rest,
                     m_index := 0\<rparr>)"
| "texec line I_SendRemainingIDBytes rest m =
     (if unat (m_index m) < 8
      then Continue (m\<lparr>prog := I_SendRemainingBits 8 (m_addr m ! unat (m_index m)) #
                                I_SendRemainingIDBytes # rest,
                       m_index := m_index m + 1\<rparr>)
      else Continue (m\<lparr>prog := rest\<rparr>))"
| "texec line I_Reset rest m =
     Continue (m\<lparr>prog := [I_BusLow, I_Yield Micros480, I_BusRelease, I_Yield Micros70,
                              I_BusSample, I_Yield Micros410] @ rest\<rparr>)"
| "texec line (I_Yield tics) rest m = Return tics (m\<lparr>prog := rest\<rparr>)"
| "texec line I_BusSample rest m =
     (let thisBit = line (m_log m @ [Released]);
          m1 = m\<lparr>prog := rest, m_log := m_log m @ [Released, Sampled thisBit]\<rparr>
      in if thisBit then Continue (m1\<lparr>m_status := m_status m OR NoDeviceOnBus\<rparr>)
         else Continue m1)"
| "texec line I_WaitForBusRelease rest m =
     (let thisBit = line (m_log m @ [Released]);
          m1 = m\<lparr>m_log := m_log m @ [Released, Sampled thisBit]\<rparr>
      in if \<not> thisBit
         then Continue (m1\<lparr>prog := I_Yield 255 # I_WaitForBusRelease # rest\<rparr>)
         else Continue (m1\<lparr>prog := rest, m_status := m_status m AND NOT DevicesAreBusy\<rparr>))"
| "texec line (I_TestTimings loByte hiByte) rest m =
     (let toGo = (push_bit 8 (ucast hiByte) OR ucast loByte :: 16 word);
          toGo' = (if unat toGo > 1 then toGo - 1 else toGo);
          again = (if unat toGo > 1
                   then [I_TestTimings (ucast (toGo' AND 0xFF)) (ucast (drop_bit 8 toGo'))]
                   else [])
      in Continue (m\<lparr>prog := I_Yield (test_delay toGo') # again @ rest,
                      m_log := m_log m @ [Released, DelayUs 10, PulledLow]\<rparr>))"

definition tstep :: "bus_line \<Rightarrow> machine \<Rightarrow> machine outcome" where
  "tstep line m = (case prog m of [] \<Rightarrow> Return 255 m | i # rest \<Rightarrow> texec line i rest m)"

text \<open>
  \<open>need i\<close> is the highest number of bytes that the instruction \<open>i\<close> and what it
  expands to ever occupy above the instructions below it; \<open>peak\<close> is the highest the
  stack gets while a list of instructions runs. A list is sound when that stays within
  \<open>stackSize\<close> and the buffers have the size that the instructions on it need.
  \<open>decodes\<close> relates a reader to the list of instructions on its stack.
\<close>

fun need :: "instr \<Rightarrow> nat" where
  "need (I_Yield tics) = 2"
| "need I_WaitForBusRelease = 3"
| "need (I_SendRemainingBits bitsToGo toSend) = 6"
| "need (I_ReadRemainingBits bitPos) = 4"
| "need (I_TestTimings loByte hiByte) = 5"
| "need I_Reset = 9"
| "need I_SendRemainingIDBytes = 7"
| "need I_StartIDSend = 7"
| "need I_ReadScratchPad = 16"
| "need i = 1"

fun peak :: "instr list \<Rightarrow> nat" where
  "peak [] = 0"
| "peak (i # rest) = max (length (encs rest) + need i) (peak rest)"

fun instr_ok :: "machine \<Rightarrow> instr \<Rightarrow> bool" where
  "instr_ok m (I_ReadRemainingBits bitPos) = (unat bitPos < 72 \<and> length (m_pad m) = 9)"
| "instr_ok m I_ReadScratchPad = (length (m_pad m) = 9 \<and> length (m_addr m) = 8)"
| "instr_ok m I_StartIDSend = (length (m_addr m) = 8)"
| "instr_ok m I_SendRemainingIDBytes = (length (m_addr m) = 8)"
| "instr_ok m i = True"

definition sound :: "machine \<Rightarrow> bool" where
  "sound m \<longleftrightarrow> peak (prog m) \<le> stackSize \<and> list_all (instr_ok m) (prog m)"

definition decodes :: "reader \<Rightarrow> machine \<Rightarrow> bool" where
  "decodes s m \<longleftrightarrow>
     stack_ok s \<and> stk s = encs (prog m) \<and> status s = m_status m \<and>
     receiveRegister s = m_receive m \<and> deviceAddr s = m_addr m \<and>
     idByteIndex s = m_index m \<and> sPad s = m_pad m \<and> busLog s = m_log m"

fun rel_out :: "reader outcome \<Rightarrow> machine outcome \<Rightarrow> bool" where
  "rel_out (Continue s) (Continue m) = decodes s m"
| "rel_out (Return t s) (Return t' m) = (t = t' \<and> decodes s m)"
| "rel_out r r' = False"

definition machine_of :: "instr list \<Rightarrow> reader \<Rightarrow> machine" where
  "machine_of p s = \<lparr>prog = p, m_status = status s, m_receive = receiveRegister s,
     m_addr = deviceAddr s, m_index = idByteIndex s, m_pad = sPad s, m_log = busLog s\<rparr>"

definition tracked :: "reader \<Rightarrow> bool" where
  "tracked s \<longleftrightarrow> (\<exists>m. decodes s m \<and> sound m)"

text \<open>
  \<open>dist\<close> bounds the turns of the loop before the next \<open>Yield\<close> is popped or the list
  is empty, so a timeslice on a list of instructions is a total function.
\<close>

fun dist :: "instr list \<Rightarrow> nat" where
  "dist [] = 0"
| "dist (I_Yield tics # rest) = 0"
| "dist (I_SendRemainingBits bitsToGo toSend # rest) = 1"
| "dist (I_ReadRemainingBits bitPos # rest) = 1"
| "dist (I_TestTimings loByte hiByte # rest) = 1"
| "dist (I_Reset # rest) = 2"
| "dist (I_StartIDSend # rest) = 2"
| "dist (I_ReadScratchPad # rest) = 3"
| "dist (I_SendRemainingIDBytes # rest) = max 2 (Suc (dist rest))"
| "dist (I_WaitForBusRelease # rest) = max 1 (Suc (dist rest))"
| "dist (i # rest) = Suc (dist rest)"

function tslice :: "bus_line \<Rightarrow> machine \<Rightarrow> byte \<times> machine" where
  "tslice line m =
     (case tstep line m of Return tics m' \<Rightarrow> (tics, m') | Continue m' \<Rightarrow> tslice line m')"
  by pat_completeness auto
termination
proof (relation "measure (\<lambda>(line, m). dist (prog m))")
  show "wf (measure (\<lambda>(line, m). dist (prog m)))" by simp
next
  fix line :: bus_line and m m' :: machine
  assume c: "tstep line m = Continue m'"
  have "dist (prog m') < dist (prog m)"
  proof (cases "prog m")
    case Nil
    with c show ?thesis by (simp add: tstep_def)
  next
    case (Cons i rest)
    with c show ?thesis
      by (cases i) (auto simp: tstep_def Let_def split: if_splits)
  qed
  then show "((line, m'), (line, m)) \<in> measure (\<lambda>(line, m). dist (prog m))" by simp
qed

declare tslice.simps [simp del]

definition tisr :: "bus_line \<Rightarrow> machine \<Rightarrow> machine" where
  "tisr line m = (let (tics, m') = tslice line m in m'\<lparr>m_log := m_log m' @ [TimerWait tics]\<rparr>)"

fun tinterrupts :: "nat \<Rightarrow> bus_line \<Rightarrow> machine \<Rightarrow> machine" where
  "tinterrupts 0 line m = m"
| "tinterrupts (Suc n) line m = tinterrupts n line (tisr line m)"

definition busy_until_drained :: "machine \<Rightarrow> bool" where
  "busy_until_drained m \<longleftrightarrow>
     (if prog m = [] then m_status m AND StillBusy = 0
      else last (prog m) = I_ClearBusyStatus \<and> I_ClearBusyStatus \<notin> set (butlast (prog m))
           \<and> m_status m AND StillBusy = StillBusy)"

section \<open>Properties of the instruction stack\<close>

lemmas opcode_defs =
  BusLow_def ReadRemainingBits_def SendRemainingBits_def SendRemainingIDBytes_def
  WaitForBusRelease_def BusRelease_def ClearBusyStatus_def BusSample_def TestTimings_def
  ReadScratchPad_def StartIDSend_def Reset_def Yield_def

lemmas micros_defs =
  Micros55_def Micros60_def Micros64_def Micros70_def Micros410_def Micros480_def

lemmas status_defs = Success_def StillBusy_def NoDeviceOnBus_def DevicesAreBusy_def

lemmas command_defs = STARTCONVO_def READSCRATCH_def SELECTDEVICE_def SKIPROMWILDCARD_def

lemma unat_top_suc: "unat (t::byte) < 20 \<Longrightarrow> unat (t + 1) = Suc (unat t)"
  by (simp add: unat_word_ariths)

lemma unat_top_pred: "(t::byte) \<noteq> 0 \<Longrightarrow> unat (t - 1) = unat t - 1"
  by (simp add: unat_minus_one)

lemma push_stack_ok:
  assumes "stack_ok s"
  shows "\<exists>s'. push b s = Inr s' \<and> stack_ok s' \<and>
     unat (topOfStack s') = min stackSize (Suc (unat (topOfStack s)))"
  using assms unfolding stack_ok_def push_def stackSize_def Let_def
  by (auto simp: unat_top_suc)

lemma pop_stack_ok:
  assumes "stack_ok s" "topOfStack s \<noteq> 0"
  shows "\<exists>v s'. pop s = (Some v, s') \<and> stack_ok s' \<and>
     unat (topOfStack s') = unat (topOfStack s) - 1"
  using assms unfolding stack_ok_def pop_def stackSize_def Let_def
  by (auto simp: unat_top_pred unat_gt_0)

lemma run_ops_ok:
  "stack_ok s \<Longrightarrow> \<not> underflows ops (unat (topOfStack s)) \<Longrightarrow>
     \<exists>s'. run_ops ops s = Some s' \<and> stack_ok s'"
proof (induction ops arbitrary: s)
  case Nil
  then show ?case by simp
next
  case (Cons a ops)
  show ?case
  proof (cases a)
    case (Push b)
    from push_stack_ok[OF Cons.prems(1), of b] obtain s1 where
      s1: "push b s = Inr s1" "stack_ok s1"
        "unat (topOfStack s1) = min stackSize (Suc (unat (topOfStack s)))"
      by blast
    with Cons.prems Push have "\<not> underflows ops (unat (topOfStack s1))" by simp
    from Cons.IH[OF s1(2) this] show ?thesis using Push s1 by simp
  next
    case Pop
    with Cons.prems have nz: "topOfStack s \<noteq> 0"
      and nu: "\<not> underflows ops (unat (topOfStack s) - 1)"
      by (auto simp: unat_eq_0)
    from pop_stack_ok[OF Cons.prems(1) nz] obtain v s1 where
      s1: "pop s = (Some v, s1)" "stack_ok s1"
        "unat (topOfStack s1) = unat (topOfStack s) - 1"
      by blast
    from Cons.IH[OF s1(2)] nu s1 show ?thesis using Pop by simp
  qed
qed

lemma push_full:
  "unat (topOfStack s) = stackSize \<Longrightarrow>
     push b s = Inr (s\<lparr>ledAlert := True, stackSnapshot := snapshot s\<rparr>)"
  by (simp add: push_def)

lemma push_write_in_range:
  "push b s = Inr s' \<Longrightarrow>
     theCode s' = theCode s \<or>
     (unat (topOfStack s) < stackSize \<and> theCode s' = (theCode s)[unat (topOfStack s) := b])"
  by (auto simp: push_def Let_def split: if_splits)

text \<open>
  Claim C5, as the code has it. A push onto a full stack (top index at \<open>stackSize\<close>) drops
  the byte, raises the alert and leaves \<open>theCode\<close> and \<open>topOfStack\<close> as they were (the
  snapshot is retaken). Every sequence of pushes and pops that never pops an empty stack
  runs without leaving an array and keeps the top index within 0 and \<open>stackSize\<close>. A push
  writes \<open>theCode\<close> at the top index only, and only when that index is below \<open>stackSize\<close>.
\<close>

theorem push_on_full_stack_and_index_range:
  "(unat (topOfStack s) = stackSize \<longrightarrow>
      push b s = Inr (s\<lparr>ledAlert := True, stackSnapshot := snapshot s\<rparr>))
   \<and> (stack_ok s \<and> \<not> underflows ops (unat (topOfStack s)) \<longrightarrow>
      (\<exists>s'. run_ops ops s = Some s' \<and> stack_ok s'))
   \<and> (\<forall>s'. push b s = Inr s' \<longrightarrow>
        theCode s' = theCode s \<or>
        (unat (topOfStack s) < stackSize \<and>
         theCode s' = (theCode s)[unat (topOfStack s) := b]))"
  using push_full run_ops_ok push_write_in_range by blast

theorem push_on_full_stack_and_index_range_witness:
  "unat (topOfStack full_stack) = stackSize
   \<and> push 7 full_stack = Inr (full_stack\<lparr>ledAlert := True, stackSnapshot := snapshot full_stack\<rparr>)
   \<and> stack_ok full_stack \<and> \<not> underflows [Pop, Push 1, Push 2, Pop] (unat (topOfStack full_stack))
   \<and> (\<exists>s'. run_ops [Pop, Push 1, Push 2, Pop] full_stack = Some s' \<and> stack_ok s')
   \<and> (\<exists>s'. push 7 full_stack = Inr s' \<and> theCode s' = theCode full_stack)
   \<and> (\<exists>s'. push 7 power_on = Inr s' \<and> theCode s' \<noteq> theCode power_on
         \<and> unat (topOfStack power_on) < stackSize
         \<and> theCode s' = (theCode power_on)[unat (topOfStack power_on) := 7])"
proof -
  have a: "unat (topOfStack full_stack) = stackSize"
    by (simp add: full_stack_def power_on_def stackSize_def)
  have b: "stack_ok full_stack"
    by (simp add: stack_ok_def full_stack_def power_on_def stackSize_def)
  have c: "\<not> underflows [Pop, Push 1, Push 2, Pop] (unat (topOfStack full_stack))"
    by (simp add: full_stack_def power_on_def stackSize_def)
  note t = push_on_full_stack_and_index_range[of full_stack 7 "[Pop, Push 1, Push 2, Pop]"]
  from t a have d: "push 7 full_stack = Inr (full_stack\<lparr>ledAlert := True, stackSnapshot := snapshot full_stack\<rparr>)"
    by blast
  from t b c have e: "\<exists>s'. run_ops [Pop, Push 1, Push 2, Pop] full_stack = Some s' \<and> stack_ok s'"
    by blast
  have p: "\<exists>s'. push 7 power_on = Inr s' \<and> theCode s' ! 0 = 7"
    by (simp add: push_def power_on_def stackSize_def Let_def)
  then obtain s1 where s1: "push 7 power_on = Inr s1" "theCode s1 ! 0 = 7" by blast
  have "theCode power_on ! 0 = 0" by (simp add: power_on_def)
  with s1(2) have q: "theCode s1 \<noteq> theCode power_on" by auto
  from push_on_full_stack_and_index_range[of power_on 7 "[]"] s1(1) q
  have f: "\<exists>s'. push 7 power_on = Inr s' \<and> theCode s' \<noteq> theCode power_on
         \<and> unat (topOfStack power_on) < stackSize
         \<and> theCode s' = (theCode power_on)[unat (topOfStack power_on) := 7]"
    by blast
  from d have g: "\<exists>s'. push 7 full_stack = Inr s' \<and> theCode s' = theCode full_stack"
    by simp
  show ?thesis using a b c d e f g by blast
qed

text \<open>
  Claim C5 as stated fails for a pop of the empty stack: \<open>--topOfStack\<close> wraps the byte
  to 255, which is above \<open>stackSize\<close>.
\<close>

theorem pop_on_empty_stack_counterexample:
  "stack_ok (flushStack power_on) \<and>
   \<not> unat (topOfStack (snd (pop (flushStack power_on)))) \<le> stackSize"
  by (simp add: pop_def flushStack_def power_on_def Let_def stack_ok_def stackSize_def
      unsigned_minus_1_eq_mask mask_eq_exp_minus_1)

text \<open>
  Claim C9. With an empty instruction stack \<open>doTimeslice\<close> returns the maximum holdoff 255
  at once and the state, with the log of the bus in it, is unchanged.
\<close>

theorem doTimeslice_empty_stack:
  "topOfStack s = 0 \<Longrightarrow> doTimeslice line s = Some (Inr (255, s))"
  by (subst doTimeslice.simps) (simp add: step_def)

theorem doTimeslice_empty_stack_witness:
  "topOfStack power_on = 0 \<and> doTimeslice (\<lambda>log. False) power_on = Some (Inr (255, power_on))"
proof -
  have "topOfStack power_on = 0" by (simp add: power_on_def)
  then show ?thesis using doTimeslice_empty_stack [of power_on "\<lambda>log. False"] by simp
qed

lemma step_Continue: "step line s = Inr (Continue s') \<Longrightarrow> doTimeslice line s = doTimeslice line s'"
  by (subst doTimeslice.simps) simp

text \<open>
  Claim C4. When \<open>BusSample\<close> is on top of the stack and the bus reads high, the turn of
  the loop sets \<open>NoDeviceOnBus\<close> in the status and pops nothing but the opcode itself:
  \<open>theCode\<close> is unchanged, the instructions below stay on the stack, and \<open>doTimeslice\<close>
  goes on with them.
\<close>

theorem BusSample_high_keeps_pending_instructions:
  assumes "topOfStack s \<noteq> 0" and "unat (topOfStack s) \<le> stackSize"
    and "theCode s ! (unat (topOfStack s) - 1) = BusSample"
    and "line (busLog s @ [Released])"
  shows "(let s' = s\<lparr>busLog := busLog s @ [Released, Sampled True],
                      topOfStack := topOfStack s - 1,
                      status := status s OR NoDeviceOnBus, ledAlert := True\<rparr>
          in step line s = Inr (Continue s')
             \<and> doTimeslice line s = doTimeslice line s'
             \<and> theCode s' = theCode s
             \<and> take (unat (topOfStack s')) (theCode s') = take (unat (topOfStack s) - 1) (theCode s))"
proof -
  let ?s' = "s\<lparr>busLog := busLog s @ [Released, Sampled True],
                      topOfStack := topOfStack s - 1,
                      status := status s OR NoDeviceOnBus, ledAlert := True\<rparr>"
  have st: "step line s = Inr (Continue ?s')"
    using assms
    by (simp add: step_def popE_def pop_def Let_def unat_top_pred exec_BusSample_def
        sampleBus_def releaseBus_def opcode_defs stackSize_def unat_gt_0 bindE_def)
  from step_Continue[OF st] st assms(1) show ?thesis
    by (simp add: Let_def unat_top_pred)
qed

theorem BusSample_high_keeps_pending_instructions_witness:
  "topOfStack awaiting_presence \<noteq> 0 \<and> unat (topOfStack awaiting_presence) \<le> stackSize
   \<and> theCode awaiting_presence ! (unat (topOfStack awaiting_presence) - 1) = BusSample
   \<and> no_device_line (busLog awaiting_presence @ [Released])
   \<and> step no_device_line awaiting_presence =
       Inr (Continue (awaiting_presence\<lparr>busLog := [Released, Sampled True], topOfStack := 3,
              status := StillBusy OR NoDeviceOnBus, ledAlert := True\<rparr>))"
proof -
  have a: "topOfStack awaiting_presence \<noteq> 0" "unat (topOfStack awaiting_presence) \<le> stackSize"
    "theCode awaiting_presence ! (unat (topOfStack awaiting_presence) - 1) = BusSample"
    "no_device_line (busLog awaiting_presence @ [Released])"
    by (simp_all add: awaiting_presence_def power_on_def stackSize_def BusSample_def
        no_device_line_def)
  have b: "busLog awaiting_presence = []" "topOfStack awaiting_presence = 4"
    "status awaiting_presence = StillBusy"
    by (simp_all add: awaiting_presence_def power_on_def)
  from BusSample_high_keeps_pending_instructions[of awaiting_presence no_device_line, OF a] a b show ?thesis
    by (simp add: Let_def)
qed

section \<open>Properties of the device search\<close>

lemma byte_test_bit: "(x AND 2 ^ k \<noteq> 0) = bit x k" for x :: byte
  by (simp add: and_exp_eq_0_iff_not_bit)

lemma byte_set_bit: "k < 8 \<Longrightarrow> bit (x OR 2 ^ k) n = (bit x n \<or> n = k)" for x :: byte
  by (auto simp: bit_or_iff bit_exp_iff)

lemma byte_clear_bit: "bit (x AND NOT (2 ^ k)) n = (bit x n \<and> n \<noteq> k)" for x :: byte
  by (auto simp: bit_and_iff bit_not_iff bit_exp_iff dest: bit_imp_possible_bit)

lemma div_mod_eq_iff: "(i::nat) = j \<longleftrightarrow> i div 8 = j div 8 \<and> i mod 8 = j mod 8"
  by (metis div_mult_mod_eq)

lemma isBitInID_bit: "isBitInID s i = bit (inputBuf s ! (i div 8)) (i mod 8)"
  by (simp add: isBitInID_def byte_test_bit)

lemma isForkPoint_bit: "isForkPoint s i = bit (fork s ! (i div 8)) (i mod 8)"
  by (simp add: isForkPoint_def byte_test_bit)

lemma isBitInID_setBitInID:
  assumes "i < 64" "j < 64" "length (inputBuf s) = 8"
  shows "isBitInID (setBitInID j s) i = (i = j \<or> isBitInID s i)"
proof (cases "i div 8 = j div 8")
  case True
  with assms show ?thesis
    by (auto simp: isBitInID_bit setBitInID_def byte_set_bit div_mod_eq_iff[of i j])
next
  case False
  with assms show ?thesis
    by (auto simp: isBitInID_bit setBitInID_def)
qed

lemma isBitInID_unsetBitInID:
  assumes "i < 64" "j < 64" "length (inputBuf s) = 8"
  shows "isBitInID (unsetBitInID j s) i = (i \<noteq> j \<and> isBitInID s i)"
proof (cases "i div 8 = j div 8")
  case True
  with assms show ?thesis
    by (auto simp: isBitInID_bit unsetBitInID_def byte_clear_bit div_mod_eq_iff[of i j])
next
  case False
  with assms show ?thesis
    by (auto simp: isBitInID_bit unsetBitInID_def)
qed

lemma isForkPoint_setForkPoint:
  assumes "i < 64" "j < 64" "length (fork s) = 8"
  shows "isForkPoint (setForkPoint j s) i = (i = j \<or> isForkPoint s i)"
proof (cases "i div 8 = j div 8")
  case True
  with assms show ?thesis
    by (auto simp: isForkPoint_bit setForkPoint_def byte_set_bit div_mod_eq_iff[of i j])
next
  case False
  with assms show ?thesis
    by (auto simp: isForkPoint_bit setForkPoint_def)
qed

lemma isForkPoint_unsetForkPoint:
  assumes "i < 64" "j < 64" "length (fork s) = 8"
  shows "isForkPoint (unsetForkPoint j s) i = (i \<noteq> j \<and> isForkPoint s i)"
proof (cases "i div 8 = j div 8")
  case True
  with assms show ?thesis
    by (auto simp: isForkPoint_bit unsetForkPoint_def byte_clear_bit div_mod_eq_iff[of i j])
next
  case False
  with assms show ?thesis
    by (auto simp: isForkPoint_bit unsetForkPoint_def)
qed

lemma lastForkBelow_none:
  "(\<forall>i<n. \<not> isForkPoint s i) \<Longrightarrow> lastForkBelow n s = - 1"
  by (induction n) auto

lemma lastForkBelow_deepest:
  "f < n \<Longrightarrow> isForkPoint s f \<Longrightarrow> (\<forall>i. f < i \<and> i < n \<longrightarrow> \<not> isForkPoint s i) \<Longrightarrow>
     lastForkBelow n s = int f"
proof (induction n)
  case 0
  then show ?case by simp
next
  case (Suc n)
  show ?case
  proof (cases "f = n")
    case True
    with Suc.prems show ?thesis by simp
  next
    case False
    with Suc.prems have "f < n" "\<not> isForkPoint s n" by auto
    with Suc show ?thesis by simp
  qed
qed

lemma fold_unset_frame [simp]:
  "fork (fold unsetBitInID xs s) = fork s"
  "busLog (fold unsetBitInID xs s) = busLog s"
  "firstTime (fold unsetBitInID xs s) = firstTime s"
  "length (inputBuf (fold unsetBitInID xs s)) = length (inputBuf s)"
  by (induction xs arbitrary: s) (simp_all add: unsetBitInID_def)

lemma isBitInID_fold_unset:
  "i < 64 \<Longrightarrow> \<forall>x\<in>set xs. x < 64 \<Longrightarrow> length (inputBuf s) = 8 \<Longrightarrow>
     isBitInID (fold unsetBitInID xs s) i = (i \<notin> set xs \<and> isBitInID s i)"
proof (induction xs arbitrary: s)
  case Nil
  then show ?case by simp
next
  case (Cons x xs)
  have "length (inputBuf (unsetBitInID x s)) = 8"
    using Cons.prems by (simp add: unsetBitInID_def)
  with Cons show ?case
    by (auto simp: isBitInID_unsetBitInID)
qed

text \<open>
  Claim C8. After the first call, when no fork bit is set, every further call of
  \<open>findNextDevice\<close> returns 1 (exhausted) and leaves the whole object, the ID buffer and
  the bus included, as it was; so does any number of calls in a row.
\<close>

theorem exhausted_search_is_idempotent:
  assumes "\<not> firstTime s" and "\<forall>i<64. \<not> isForkPoint s i"
  shows "findNextDevice_times n line s = (replicate n 1, s)"
proof (induction n)
  case 0
  show ?case by simp
next
  case (Suc n)
  have "findNextDevice line s = (1, s)"
    using assms by (simp add: findNextDevice_def findLastForkPoint_def lastForkBelow_none)
  with Suc show ?case by simp
qed

lemma readBit_effect:
  "readBit line s = (b, s') \<Longrightarrow>
     s' = s\<lparr>busLog := busLog s @ readBit_events b\<rparr> \<and>
     b = line (busLog s @ [PulledLow, DelayUs 6, Released, DelayUs 9])"
  by (auto simp: readBit_def sampleBus_def delay_us_def releaseBus_def pullBusLow_def
      readBit_events_def)

lemma ResetBus_effect:
  "ResetBus line s =
     (line (busLog s @ [PulledLow, DelayUs 480, Released, DelayUs 70]),
      s\<lparr>busLog := busLog s @
         reset_events (line (busLog s @ [PulledLow, DelayUs 480, Released, DelayUs 70]))\<rparr>)"
  by (simp add: ResetBus_def sampleBus_def delay_us_def releaseBus_def pullBusLow_def
      reset_events_def)

lemma sendBit_effect:
  "sendBit b s = s\<lparr>busLog := busLog s @ sendBit_events (b = 1)\<rparr>"
  by (simp add: sendBit_def sendBit_events_def delay_us_def releaseBus_def pullBusLow_def)

lemma recordAndSend_effect:
  "recordAndSend d b s =
     (if b = 1 then setBitInID d s else unsetBitInID d s)
       \<lparr>busLog := busLog s @ sendBit_events (b = 1)\<rparr>"
  by (simp add: recordAndSend_def setBitInID_def unsetBitInID_def sendBit_effect)

lemma isBitInID_log_update [simp]: "isBitInID (s\<lparr>busLog := l\<rparr>) i = isBitInID s i"
  by (simp add: isBitInID_def)

lemma isForkPoint_log_update [simp]: "isForkPoint (s\<lparr>busLog := l\<rparr>) i = isForkPoint s i"
  by (simp add: isForkPoint_def)

lemma isBitInID_setForkPoint [simp]: "isBitInID (setForkPoint d s) i = isBitInID s i"
  by (simp add: isBitInID_def setForkPoint_def)

lemma isForkPoint_setBitInID [simp]: "isForkPoint (setBitInID d s) i = isForkPoint s i"
  by (simp add: isForkPoint_def setBitInID_def)

lemma isForkPoint_unsetBitInID [simp]: "isForkPoint (unsetBitInID d s) i = isForkPoint s i"
  by (simp add: isForkPoint_def unsetBitInID_def)

lemma isBitInID_unsetForkPoint [simp]: "isBitInID (unsetForkPoint d s) i = isBitInID s i"
  by (simp add: isBitInID_def unsetForkPoint_def)

lemma recorded_bit:
  assumes "d < 64" "i < 64" "length (inputBuf s) = 8"
  shows "isBitInID (recordAndSend d b s) i = (if i = d then b = 1 else isBitInID s i)"
  using assms by (simp add: recordAndSend_effect isBitInID_setBitInID isBitInID_unsetBitInID)

lemma recordAndSend_frame:
  "busLog (recordAndSend d b s) = busLog s @ sendBit_events (b = 1)"
  "fork (recordAndSend d b s) = fork s"
  "firstTime (recordAndSend d b s) = firstTime s"
  "isForkPoint (recordAndSend d b s) i = isForkPoint s i"
  by (simp_all add: recordAndSend_effect setBitInID_def unsetBitInID_def isForkPoint_def)

lemma response_values:
  "(push_bit 1 (of_bool b1) OR of_bool b0 :: byte) =
     (if b1 then (if b0 then 3 else 2) else (if b0 then 1 else 0))"
  by simp

lemma searchRound_eq:
  assumes "readBit line s = (b1, s1)" "readBit line s1 = (b0, s2)"
  shows "searchRound line fr d cr s =
     (if b1 \<and> b0 then Return 2 (cr, s2)
      else if b1 then Continue (1, recordAndSend d 1 s2)
      else if b0 then Continue (0, recordAndSend d 0 s2)
      else if int d \<le> fr
        then Continue (of_bool (isBitInID s2 d), recordAndSend d (of_bool (isBitInID s2 d)) s2)
      else Continue (0, recordAndSend d 0 (setForkPoint d s2)))"
  using assms by (simp add: searchRound_def response_values)

text \<open>
  Claim C2. One round of the search loop at depth \<open>d\<close> reads \<open>b1\<close> and then \<open>b0\<close>.
  (1,0) chooses 1; (0,1) chooses 0; (1,1) returns 2 (protocol conflict) with the fork
  bits and the ID buffer untouched; (0,0) follows the ID bit at \<open>d\<close> when \<open>d\<close> is at
  most the frozen depth, and else chooses 0 and sets the fork bit at \<open>d\<close>. In every case
  that goes on, the chosen bit is the ID bit at \<open>d\<close> afterwards, the other ID bits are
  unchanged, and the bit is sent on the bus after the two reads.
\<close>

theorem search_round_follows_response_bits:
  assumes "d < 64" and "length (inputBuf s) = 8" and "length (fork s) = 8"
    and "readBit line s = (b1, s1)" and "readBit line s1 = (b0, s2)"
  shows "busLog s2 = busLog s @ readBit_events b1 @ readBit_events b0
    \<and> (b1 \<and> \<not> b0 \<longrightarrow> (\<exists>s'. searchRound line fr d cr s = Continue (1, s')
          \<and> (\<forall>i<64. isBitInID s' i = (if i = d then True else isBitInID s i))
          \<and> (\<forall>i<64. isForkPoint s' i = isForkPoint s i)
          \<and> busLog s' = busLog s2 @ sendBit_events True))
    \<and> (\<not> b1 \<and> b0 \<longrightarrow> (\<exists>s'. searchRound line fr d cr s = Continue (0, s')
          \<and> (\<forall>i<64. isBitInID s' i = (if i = d then False else isBitInID s i))
          \<and> (\<forall>i<64. isForkPoint s' i = isForkPoint s i)
          \<and> busLog s' = busLog s2 @ sendBit_events False))
    \<and> (b1 \<and> b0 \<longrightarrow> searchRound line fr d cr s = Return 2 (cr, s2)
          \<and> searchLoop line fr d cr s = (2, s2)
          \<and> fork s2 = fork s \<and> inputBuf s2 = inputBuf s)
    \<and> (\<not> b1 \<and> \<not> b0 \<and> int d \<le> fr \<longrightarrow>
          (\<exists>s'. searchRound line fr d cr s = Continue (of_bool (isBitInID s d), s')
          \<and> (\<forall>i<64. isBitInID s' i = isBitInID s i)
          \<and> (\<forall>i<64. isForkPoint s' i = isForkPoint s i)
          \<and> busLog s' = busLog s2 @ sendBit_events (isBitInID s d)))
    \<and> (\<not> b1 \<and> \<not> b0 \<and> fr < int d \<longrightarrow> (\<exists>s'. searchRound line fr d cr s = Continue (0, s')
          \<and> (\<forall>i<64. isBitInID s' i = (if i = d then False else isBitInID s i))
          \<and> (\<forall>i<64. isForkPoint s' i = (i = d \<or> isForkPoint s i))
          \<and> busLog s' = busLog s2 @ sendBit_events False))"
proof -
  from readBit_effect[OF assms(4)] have s1: "s1 = s\<lparr>busLog := busLog s @ readBit_events b1\<rparr>"
    by simp
  from readBit_effect[OF assms(5)] have s2': "s2 = s1\<lparr>busLog := busLog s1 @ readBit_events b0\<rparr>"
    by simp
  with s1 have s2: "s2 = s\<lparr>busLog := busLog s @ readBit_events b1 @ readBit_events b0\<rparr>"
    by simp
  have len: "length (inputBuf s2) = 8" "length (fork s2) = 8"
    "length (inputBuf (setForkPoint d s2)) = 8"
    using assms(2,3) s2 by (simp_all add: setForkPoint_def)
  have id2: "\<And>i. isBitInID s2 i = isBitInID s i" and fk2: "\<And>i. isForkPoint s2 i = isForkPoint s i"
    using s2 by simp_all
  note eq = searchRound_eq[OF assms(4,5), of fr d cr]
  have log: "busLog s2 = busLog s @ readBit_events b1 @ readBit_events b0"
    using s2 by simp
  have c10: "b1 \<and> \<not> b0 \<longrightarrow> (\<exists>s'. searchRound line fr d cr s = Continue (1, s')
          \<and> (\<forall>i<64. isBitInID s' i = (if i = d then True else isBitInID s i))
          \<and> (\<forall>i<64. isForkPoint s' i = isForkPoint s i)
          \<and> busLog s' = busLog s2 @ sendBit_events True)"
    using eq assms(1) len id2 fk2
    by (auto simp: recorded_bit recordAndSend_frame)
  have c01: "\<not> b1 \<and> b0 \<longrightarrow> (\<exists>s'. searchRound line fr d cr s = Continue (0, s')
          \<and> (\<forall>i<64. isBitInID s' i = (if i = d then False else isBitInID s i))
          \<and> (\<forall>i<64. isForkPoint s' i = isForkPoint s i)
          \<and> busLog s' = busLog s2 @ sendBit_events False)"
    using eq assms(1) len id2 fk2
    by (auto simp: recorded_bit recordAndSend_frame)
  have c11: "b1 \<and> b0 \<longrightarrow> searchRound line fr d cr s = Return 2 (cr, s2)
          \<and> searchLoop line fr d cr s = (2, s2)
          \<and> fork s2 = fork s \<and> inputBuf s2 = inputBuf s"
    using eq s2 assms(1) by (simp add: searchLoop.simps[of line fr d cr s])
  have c00a: "\<not> b1 \<and> \<not> b0 \<and> int d \<le> fr \<longrightarrow>
          (\<exists>s'. searchRound line fr d cr s = Continue (of_bool (isBitInID s d), s')
          \<and> (\<forall>i<64. isBitInID s' i = isBitInID s i)
          \<and> (\<forall>i<64. isForkPoint s' i = isForkPoint s i)
          \<and> busLog s' = busLog s2 @ sendBit_events (isBitInID s d))"
    using eq assms(1) len id2 fk2
    by (auto simp: recorded_bit recordAndSend_frame)
  have c00b: "\<not> b1 \<and> \<not> b0 \<and> fr < int d \<longrightarrow> (\<exists>s'. searchRound line fr d cr s = Continue (0, s')
          \<and> (\<forall>i<64. isBitInID s' i = (if i = d then False else isBitInID s i))
          \<and> (\<forall>i<64. isForkPoint s' i = (i = d \<or> isForkPoint s i))
          \<and> busLog s' = busLog s2 @ sendBit_events False)"
  proof (intro impI)
    assume a: "\<not> b1 \<and> \<not> b0 \<and> fr < int d"
    let ?s' = "recordAndSend d 0 (setForkPoint d s2)"
    have 1: "searchRound line fr d cr s = Continue (0, ?s')" using eq a by simp
    have 2: "\<forall>i<64. isBitInID ?s' i = (if i = d then False else isBitInID s i)"
      using assms(1) len id2 by (simp add: recorded_bit)
    have 3: "\<forall>i<64. isForkPoint ?s' i = (i = d \<or> isForkPoint s i)"
      using assms(1) len fk2 isForkPoint_setForkPoint[of _ d s2]
      by (simp add: recordAndSend_frame)
    have 4: "busLog ?s' = busLog s2 @ sendBit_events False"
      by (simp add: recordAndSend_frame setForkPoint_def)
    from 1 2 3 4 show "\<exists>s'. searchRound line fr d cr s = Continue (0, s')
          \<and> (\<forall>i<64. isBitInID s' i = (if i = d then False else isBitInID s i))
          \<and> (\<forall>i<64. isForkPoint s' i = (i = d \<or> isForkPoint s i))
          \<and> busLog s' = busLog s2 @ sendBit_events False" by blast
  qed
  from log c10 c01 c11 c00a c00b show ?thesis by blast
qed

lemma backtrack_frame:
  "busLog (backtrack f s) = busLog s" "firstTime (backtrack f s) = firstTime s"
  by (simp_all add: backtrack_def setBitInID_def unsetForkPoint_def)

lemma backtrack_id_bits:
  assumes "f < 64" "i < 64" "length (inputBuf s) = 8"
  shows "isBitInID (backtrack f s) i = (if i < f then isBitInID s i else i = f)"
proof -
  let ?s1 = "fold unsetBitInID [Suc f..<64] s"
  have len: "length (inputBuf (unsetForkPoint f ?s1)) = 8"
    using assms(3) by (simp add: unsetForkPoint_def)
  have "isBitInID (backtrack f s) i = (i = f \<or> isBitInID ?s1 i)"
    unfolding backtrack_def using assms(1,2) len by (simp add: isBitInID_setBitInID)
  also have "isBitInID ?s1 i = (i \<notin> set [Suc f..<64] \<and> isBitInID s i)"
    using assms by (intro isBitInID_fold_unset) auto
  finally show ?thesis using assms(2) by auto
qed

lemma backtrack_fork_bits:
  assumes "f < 64" "i < 64" "length (fork s) = 8"
  shows "isForkPoint (backtrack f s) i = (i \<noteq> f \<and> isForkPoint s i)"
proof -
  let ?s1 = "fold unsetBitInID [Suc f..<64] s"
  have "length (fork ?s1) = 8" using assms(3) by simp
  then have "isForkPoint (unsetForkPoint f ?s1) i = (i \<noteq> f \<and> isForkPoint ?s1 i)"
    using assms(1,2) by (simp add: isForkPoint_unsetForkPoint)
  moreover have "isForkPoint ?s1 i = isForkPoint s i" by (simp add: isForkPoint_def)
  ultimately show ?thesis by (simp add: backtrack_def)
qed

text \<open>
  Claim C3. On a call after the first: without a fork bit the call returns 1 (exhausted);
  else, with \<open>f\<close> the deepest fork bit, the ID bits right of \<open>f\<close> are cleared, the fork
  bit at \<open>f\<close> is cleared, the ID bit at \<open>f\<close> is set, and the search runs with the frozen
  depth \<open>f + 1\<close>. It starts with a bus reset; when the presence sample reads high (no
  device) the call returns that 1.
\<close>

theorem later_call_backtracks_to_deepest_fork:
  assumes "\<not> firstTime s" and "length (inputBuf s) = 8" and "length (fork s) = 8"
  shows "((\<forall>i<64. \<not> isForkPoint s i) \<longrightarrow>
            findLastForkPoint s = - 1 \<and> findNextDevice line s = (1, s))
    \<and> (\<forall>f<64. isForkPoint s f \<and> (\<forall>i. f < i \<and> i < 64 \<longrightarrow> \<not> isForkPoint s i) \<longrightarrow>
          findLastForkPoint s = int f
          \<and> (\<forall>i<64. isBitInID (backtrack f s) i = (if i < f then isBitInID s i else i = f))
          \<and> (\<forall>i<64. isForkPoint (backtrack f s) i = (i \<noteq> f \<and> isForkPoint s i))
          \<and> busLog (backtrack f s) = busLog s
          \<and> findNextDevice line s = searchFrom line (int f + 1) (backtrack f s)
          \<and> (let present = line (busLog s @ [PulledLow, DelayUs 480, Released, DelayUs 70]);
                  s1 = (backtrack f s)\<lparr>busLog := busLog s @ reset_events present\<rparr>
              in searchFrom line (int f + 1) (backtrack f s) =
                   (if present then (1, s1)
                    else searchLoop line (int f + 1) 0 42 (sendByte SEARCHROM s1))))"
proof -
  have none: "(\<forall>i<64. \<not> isForkPoint s i) \<longrightarrow>
            findLastForkPoint s = - 1 \<and> findNextDevice line s = (1, s)"
    using assms(1) by (simp add: findNextDevice_def findLastForkPoint_def lastForkBelow_none)
  have some: "findLastForkPoint s = int f
          \<and> (\<forall>i<64. isBitInID (backtrack f s) i = (if i < f then isBitInID s i else i = f))
          \<and> (\<forall>i<64. isForkPoint (backtrack f s) i = (i \<noteq> f \<and> isForkPoint s i))
          \<and> busLog (backtrack f s) = busLog s
          \<and> findNextDevice line s = searchFrom line (int f + 1) (backtrack f s)
          \<and> (let present = line (busLog s @ [PulledLow, DelayUs 480, Released, DelayUs 70]);
                  s1 = (backtrack f s)\<lparr>busLog := busLog s @ reset_events present\<rparr>
              in searchFrom line (int f + 1) (backtrack f s) =
                   (if present then (1, s1)
                    else searchLoop line (int f + 1) 0 42 (sendByte SEARCHROM s1)))"
    if f: "f < 64" and d: "isForkPoint s f \<and> (\<forall>i. f < i \<and> i < 64 \<longrightarrow> \<not> isForkPoint s i)"
    for f
  proof -
    from f d have l: "findLastForkPoint s = int f"
      by (simp add: findLastForkPoint_def lastForkBelow_deepest)
    have 1: "\<forall>i<64. isBitInID (backtrack f s) i = (if i < f then isBitInID s i else i = f)"
      using f assms(2) by (simp add: backtrack_id_bits)
    have 2: "\<forall>i<64. isForkPoint (backtrack f s) i = (i \<noteq> f \<and> isForkPoint s i)"
      using f assms(3) by (simp add: backtrack_fork_bits)
    have 3: "busLog (backtrack f s) = busLog s" by (simp add: backtrack_frame)
    have 4: "findNextDevice line s = searchFrom line (int f + 1) (backtrack f s)"
      using assms(1) l by (simp add: findNextDevice_def)
    have 5: "let present = line (busLog s @ [PulledLow, DelayUs 480, Released, DelayUs 70]);
            s1 = (backtrack f s)\<lparr>busLog := busLog s @ reset_events present\<rparr>
        in searchFrom line (int f + 1) (backtrack f s) =
             (if present then (1, s1)
              else searchLoop line (int f + 1) 0 42 (sendByte SEARCHROM s1))"
      by (simp add: searchFrom_def ResetBus_effect backtrack_frame Let_def)
    from l 1 2 3 4 5 show ?thesis by blast
  qed
  from none some show ?thesis by blast
qed

lemma no_fork_above:
  "list_all (\<lambda>i. \<not> isForkPoint s i) [a..<b] \<Longrightarrow> \<forall>i. a \<le> i \<and> i < b \<longrightarrow> \<not> isForkPoint s i"
  by (simp add: list_all_iff)

lemma two_forks_top: "\<forall>i. 5 < i \<and> i < 64 \<longrightarrow> \<not> isForkPoint two_forks i"
proof -
  have "list_all (\<lambda>i. \<not> isForkPoint two_forks i) [6..<64]"
    by code_simp
  from no_fork_above[OF this] show ?thesis by simp
qed

lemma exhausted_no_fork: "\<forall>i<64. \<not> isForkPoint exhausted i"
  by (simp add: isForkPoint_def exhausted_def search_start_def begin_search_def)

theorem exhausted_search_is_idempotent_witness:
  "\<not> firstTime exhausted \<and> \<not> (\<exists>i<64. isForkPoint exhausted i) \<and>
   findNextDevice_times 3 all_low_line exhausted = ([1, 1, 1], exhausted)"
proof -
  have a: "\<not> firstTime exhausted" by (simp add: exhausted_def)
  have b: "\<not> (\<exists>i<64. isForkPoint exhausted i)" using exhausted_no_fork by blast
  from exhausted_search_is_idempotent[OF a exhausted_no_fork, of 3 all_low_line]
  show ?thesis using a b by (simp add: numeral_3_eq_3)
qed

theorem later_call_backtracks_to_deepest_fork_witness:
  "\<not> firstTime two_forks \<and> length (inputBuf two_forks) = 8 \<and> length (fork two_forks) = 8
   \<and> isForkPoint two_forks 5 \<and> \<not> (\<exists>i. 5 < i \<and> i < 64 \<and> isForkPoint two_forks i)
   \<and> findLastForkPoint two_forks = 5
   \<and> findNextDevice no_device_line two_forks =
       (1, (backtrack 5 two_forks)\<lparr>busLog := reset_events True\<rparr>)
   \<and> \<not> isForkPoint (backtrack 5 two_forks) 5 \<and> isBitInID (backtrack 5 two_forks) 5
   \<and> \<not> firstTime exhausted \<and> length (inputBuf exhausted) = 8 \<and> length (fork exhausted) = 8
   \<and> \<not> (\<exists>i<64. isForkPoint exhausted i)
   \<and> findLastForkPoint exhausted = - 1
   \<and> findNextDevice all_low_line exhausted = (1, exhausted)"
proof -
  have a: "\<not> firstTime two_forks" "length (inputBuf two_forks) = 8"
    "length (fork two_forks) = 8"
    by (simp_all add: two_forks_def)
  have b: "isForkPoint two_forks 5" by (simp add: two_forks_def isForkPoint_def)
  have l: "no_device_line (busLog two_forks @ [PulledLow, DelayUs 480, Released, DelayUs 70])"
    "busLog two_forks = []"
    by (simp_all add: no_device_line_def two_forks_def)
  have h: "isForkPoint two_forks 5 \<and> (\<forall>i. 5 < i \<and> i < 64 \<longrightarrow> \<not> isForkPoint two_forks i)"
    using b two_forks_top by blast
  have f: "(5::nat) < 64" by simp
  note c = later_call_backtracks_to_deepest_fork[OF a, of no_device_line, THEN conjunct2,
      rule_format, of 5, OF f h]
  from c have c1: "findLastForkPoint two_forks = int 5" by (rule conjunct1)
  from c have c2: "\<forall>i<64. isBitInID (backtrack 5 two_forks) i =
      (if i < 5 then isBitInID two_forks i else i = 5)" by blast
  from c have c3: "\<forall>i<64. isForkPoint (backtrack 5 two_forks) i =
      (i \<noteq> 5 \<and> isForkPoint two_forks i)" by blast
  from c have c4: "findNextDevice no_device_line two_forks =
      searchFrom no_device_line (int 5 + 1) (backtrack 5 two_forks)" by blast
  from c l have c5: "searchFrom no_device_line (int 5 + 1) (backtrack 5 two_forks) =
      (1, (backtrack 5 two_forks)\<lparr>busLog := reset_events True\<rparr>)"
    by (simp add: Let_def del: searchLoop.simps)
  from c2 have c6: "isBitInID (backtrack 5 two_forks) 5" by simp
  from c3 have c7: "\<not> isForkPoint (backtrack 5 two_forks) 5" by simp
  have n: "\<not> (\<exists>i. 5 < i \<and> i < 64 \<and> isForkPoint two_forks i)"
    using two_forks_top by blast
  have e: "\<not> firstTime exhausted" "length (inputBuf exhausted) = 8"
    "length (fork exhausted) = 8"
    by (simp_all add: exhausted_def search_start_def begin_search_def)
  have m: "\<not> (\<exists>i<64. isForkPoint exhausted i)" using exhausted_no_fork by blast
  from later_call_backtracks_to_deepest_fork[OF e, of all_low_line, THEN conjunct1]
    exhausted_no_fork
  have x: "findLastForkPoint exhausted = - 1"
    "findNextDevice all_low_line exhausted = (1, exhausted)"
    by blast+
  from a b n c1 c4 c5 c6 c7 e m x show ?thesis by simp
qed

lemma readBit_eq:
  "readBit line s =
     (line (busLog s @ [PulledLow, DelayUs 6, Released, DelayUs 9]),
      s\<lparr>busLog := busLog s @
         readBit_events (line (busLog s @ [PulledLow, DelayUs 6, Released, DelayUs 9]))\<rparr>)"
  by (simp add: readBit_def sampleBus_def delay_us_def releaseBus_def pullBusLow_def
      readBit_events_def)

lemma search_start_fields:
  "length (inputBuf search_start) = 8" "length (fork search_start) = 8"
  "busLog search_start = []"
  by (simp_all add: search_start_def begin_search_def)

lemma two_reads:
  assumes "line [PulledLow, DelayUs 6, Released, DelayUs 9] = b1"
    and "line (readBit_events b1 @ [PulledLow, DelayUs 6, Released, DelayUs 9]) = b0"
  shows "readBit line search_start = (b1, search_start\<lparr>busLog := readBit_events b1\<rparr>)"
    and "readBit line (search_start\<lparr>busLog := readBit_events b1\<rparr>) =
           (b0, search_start\<lparr>busLog := readBit_events b1 @ readBit_events b0\<rparr>)"
  using assms by (simp_all add: readBit_eq search_start_fields)

lemma search_start_bits:
  "\<not> isBitInID search_start i" "\<not> isForkPoint search_start i" if "i < 64"
  using that by (simp_all add: isBitInID_def isForkPoint_def search_start_def begin_search_def)

theorem search_round_follows_response_bits_witness:
  "(0::nat) < 64 \<and> length (inputBuf search_start) = 8 \<and> length (fork search_start) = 8
   \<and> readBit high_then_low search_start = (True, search_start\<lparr>busLog := readBit_events True\<rparr>)
   \<and> readBit high_then_low (search_start\<lparr>busLog := readBit_events True\<rparr>) =
        (False, search_start\<lparr>busLog := readBit_events True @ readBit_events False\<rparr>)
   \<and> (\<exists>s'. searchRound high_then_low (- 1) 0 42 search_start = Continue (1, s')
          \<and> isBitInID s' 0 \<and> \<not> isForkPoint s' 0
          \<and> busLog s' = readBit_events True @ readBit_events False @ sendBit_events True)
   \<and> readBit low_then_high search_start = (False, search_start\<lparr>busLog := readBit_events False\<rparr>)
   \<and> readBit low_then_high (search_start\<lparr>busLog := readBit_events False\<rparr>) =
        (True, search_start\<lparr>busLog := readBit_events False @ readBit_events True\<rparr>)
   \<and> (\<exists>s'. searchRound low_then_high (- 1) 0 42 search_start = Continue (0, s')
          \<and> \<not> isBitInID s' 0 \<and> \<not> isForkPoint s' 0
          \<and> busLog s' = readBit_events False @ readBit_events True @ sendBit_events False)
   \<and> readBit no_device_line search_start = (True, search_start\<lparr>busLog := readBit_events True\<rparr>)
   \<and> readBit no_device_line (search_start\<lparr>busLog := readBit_events True\<rparr>) =
        (True, search_start\<lparr>busLog := readBit_events True @ readBit_events True\<rparr>)
   \<and> searchRound no_device_line (- 1) 0 42 search_start =
        Return 2 (42, search_start\<lparr>busLog := readBit_events True @ readBit_events True\<rparr>)
   \<and> searchLoop no_device_line (- 1) 0 42 search_start =
        (2, search_start\<lparr>busLog := readBit_events True @ readBit_events True\<rparr>)
   \<and> readBit all_low_line search_start = (False, search_start\<lparr>busLog := readBit_events False\<rparr>)
   \<and> readBit all_low_line (search_start\<lparr>busLog := readBit_events False\<rparr>) =
        (False, search_start\<lparr>busLog := readBit_events False @ readBit_events False\<rparr>)
   \<and> int 0 \<le> 5
   \<and> (\<exists>s'. searchRound all_low_line 5 0 42 search_start = Continue (0, s')
          \<and> \<not> isBitInID s' 0 \<and> \<not> isForkPoint s' 0
          \<and> busLog s' = readBit_events False @ readBit_events False @ sendBit_events False)
   \<and> - 1 < int 0
   \<and> (\<exists>s'. searchRound all_low_line (- 1) 0 42 search_start = Continue (0, s')
          \<and> \<not> isBitInID s' 0 \<and> isForkPoint s' 0
          \<and> busLog s' = readBit_events False @ readBit_events False @ sendBit_events False)"
proof -
  have d: "(0::nat) < 64" by simp
  note a = search_start_fields(1,2)
  note z = search_start_bits[OF d] search_start_fields(3)
  have hl: "readBit high_then_low search_start = (True, search_start\<lparr>busLog := readBit_events True\<rparr>)"
    "readBit high_then_low (search_start\<lparr>busLog := readBit_events True\<rparr>) =
        (False, search_start\<lparr>busLog := readBit_events True @ readBit_events False\<rparr>)"
    using two_reads[of high_then_low True False]
    by (simp_all add: high_then_low_def readBit_events_def)
  have lh: "readBit low_then_high search_start = (False, search_start\<lparr>busLog := readBit_events False\<rparr>)"
    "readBit low_then_high (search_start\<lparr>busLog := readBit_events False\<rparr>) =
        (True, search_start\<lparr>busLog := readBit_events False @ readBit_events True\<rparr>)"
    using two_reads[of low_then_high False True]
    by (simp_all add: low_then_high_def readBit_events_def)
  have hh: "readBit no_device_line search_start = (True, search_start\<lparr>busLog := readBit_events True\<rparr>)"
    "readBit no_device_line (search_start\<lparr>busLog := readBit_events True\<rparr>) =
        (True, search_start\<lparr>busLog := readBit_events True @ readBit_events True\<rparr>)"
    using two_reads[of no_device_line True True]
    by (simp_all add: no_device_line_def)
  have ll: "readBit all_low_line search_start = (False, search_start\<lparr>busLog := readBit_events False\<rparr>)"
    "readBit all_low_line (search_start\<lparr>busLog := readBit_events False\<rparr>) =
        (False, search_start\<lparr>busLog := readBit_events False @ readBit_events False\<rparr>)"
    using two_reads[of all_low_line False False]
    by (simp_all add: all_low_line_def)
  from search_round_follows_response_bits[OF d a hl, of "- 1" 42] z
  have 1: "\<exists>s'. searchRound high_then_low (- 1) 0 42 search_start = Continue (1, s')
          \<and> isBitInID s' 0 \<and> \<not> isForkPoint s' 0
          \<and> busLog s' = readBit_events True @ readBit_events False @ sendBit_events True"
    by auto
  from search_round_follows_response_bits[OF d a lh, of "- 1" 42] z
  have 2: "\<exists>s'. searchRound low_then_high (- 1) 0 42 search_start = Continue (0, s')
          \<and> \<not> isBitInID s' 0 \<and> \<not> isForkPoint s' 0
          \<and> busLog s' = readBit_events False @ readBit_events True @ sendBit_events False"
    by auto
  from search_round_follows_response_bits[OF d a hh, of "- 1" 42]
  have 3: "searchRound no_device_line (- 1) 0 42 search_start =
        Return 2 (42, search_start\<lparr>busLog := readBit_events True @ readBit_events True\<rparr>)"
    "searchLoop no_device_line (- 1) 0 42 search_start =
        (2, search_start\<lparr>busLog := readBit_events True @ readBit_events True\<rparr>)"
    by simp_all
  from search_round_follows_response_bits[OF d a ll, of 5 42] z
  have 4: "\<exists>s'. searchRound all_low_line 5 0 42 search_start = Continue (0, s')
          \<and> \<not> isBitInID s' 0 \<and> \<not> isForkPoint s' 0
          \<and> busLog s' = readBit_events False @ readBit_events False @ sendBit_events False"
    by auto
  from search_round_follows_response_bits[OF d a ll, of "- 1" 42] z
  have 5: "\<exists>s'. searchRound all_low_line (- 1) 0 42 search_start = Continue (0, s')
          \<and> \<not> isBitInID s' 0 \<and> isForkPoint s' 0
          \<and> busLog s' = readBit_events False @ readBit_events False @ sendBit_events False"
    by auto
  from d a hl lh hh ll 1 2 3 4 5 show ?thesis by simp
qed

section \<open>The stack as a list\<close>

lemma power_on_code: "length (theCode power_on) = stackSize"
  by (simp add: power_on_def stackSize_def)

lemma push_is_push_to: "stack_ok s \<Longrightarrow> push b s = Inr (push_to b s)"
  by (simp add: push_to_def push_def stack_ok_def Let_def)

lemma stack_ok_push_to [simp]: "stack_ok s \<Longrightarrow> stack_ok (push_to b s)"
  using push_stack_ok[of s b] by (auto simp: push_to_def)

lemma stk_push_to:
  assumes "stack_ok s"
  shows "stk (push_to b s) = (if length (stk s) < stackSize then b # stk s else stk s)"
proof (cases "unat (topOfStack s) < stackSize")
  case True
  with assms have "take (Suc (unat (topOfStack s))) ((theCode s)[unat (topOfStack s) := b]) =
      take (unat (topOfStack s)) (theCode s) @ [b]"
    by (simp add: stack_ok_def take_Suc_conv_app_nth)
  with True assms show ?thesis
    by (simp add: stk_def push_to_def push_def Let_def stack_ok_def unat_top_suc stackSize_def)
next
  case False
  with assms show ?thesis
    by (simp add: stk_def push_to_def push_def Let_def stack_ok_def)
qed

lemma push_to_frame [simp]:
  "status (push_to b s) = status s"
  "receiveRegister (push_to b s) = receiveRegister s"
  "deviceAddr (push_to b s) = deviceAddr s"
  "idByteIndex (push_to b s) = idByteIndex s"
  "sPad (push_to b s) = sPad s"
  "busLog (push_to b s) = busLog s"
  by (simp_all add: push_to_def push_def Let_def)

lemma length_stk: "stack_ok s \<Longrightarrow> length (stk s) = unat (topOfStack s)"
  by (simp add: stk_def stack_ok_def)

lemma stk_nonempty_top: "stack_ok s \<Longrightarrow> stk s = x # xs \<Longrightarrow> topOfStack s \<noteq> 0"
  using length_stk[of s] by auto

lemma pop_is_pop_to:
  assumes "stack_ok s" "stk s = x # xs"
  shows "popE s = Inr (x, pop_to s)" and "stack_ok (pop_to s)" and "stk (pop_to s) = xs"
proof -
  let ?n = "unat (topOfStack s)"
  from assms have nz: "topOfStack s \<noteq> 0" by (rule stk_nonempty_top)
  then have pred: "unat (topOfStack s - 1) = ?n - 1" and pos: "0 < ?n"
    by (simp_all add: unat_top_pred unat_gt_0)
  from assms(1) have le: "?n \<le> length (theCode s)" "length (theCode s) = stackSize"
    by (simp_all add: stack_ok_def)
  from assms(2) have "take ?n (theCode s) = rev xs @ [x]"
    by (simp add: stk_def rev_swap)
  moreover have "take ?n (theCode s) = take (?n - 1) (theCode s) @ [theCode s ! (?n - 1)]"
  proof -
    from pos le have "?n - 1 < length (theCode s)" by simp
    from take_Suc_conv_app_nth[OF this] pos show ?thesis by simp
  qed
  ultimately have t: "take (?n - 1) (theCode s) = rev xs" and x: "theCode s ! (?n - 1) = x"
    by simp_all
  from pos le pred x show "popE s = Inr (x, pop_to s)"
    by (simp add: popE_def pop_def pop_to_def Let_def)
  from le pred show "stack_ok (pop_to s)"
    by (simp add: stack_ok_def pop_to_def)
  from t pred show "stk (pop_to s) = xs"
    by (simp add: stk_def pop_to_def)
qed

lemma pop_to_frame [simp]:
  "status (pop_to s) = status s"
  "receiveRegister (pop_to s) = receiveRegister s"
  "deviceAddr (pop_to s) = deviceAddr s"
  "idByteIndex (pop_to s) = idByteIndex s"
  "sPad (pop_to s) = sPad s"
  "busLog (pop_to s) = busLog s"
  by (simp_all add: pop_to_def)

section \<open>The interpreter follows the decoded instructions\<close>

lemma popE_hd: "stack_ok s \<Longrightarrow> stk s \<noteq> [] \<Longrightarrow> popE s = Inr (hd (stk s), pop_to s)"
  using pop_is_pop_to(1)[of s] by (cases "stk s") auto

lemma stk_pop_to: "stack_ok s \<Longrightarrow> stk s \<noteq> [] \<Longrightarrow> stk (pop_to s) = tl (stk s)"
  using pop_is_pop_to(3)[of s] by (cases "stk s") auto

lemma stack_ok_pop_to: "stack_ok s \<Longrightarrow> stk s \<noteq> [] \<Longrightarrow> stack_ok (pop_to s)"
  using pop_is_pop_to(2)[of s] by (cases "stk s") auto

lemma top_zero_iff: "stack_ok s \<Longrightarrow> (topOfStack s = 0) = (stk s = [])"
  using length_stk[of s] by (auto simp: unat_eq_0)

lemma stk_update [simp]:
  "stk (s\<lparr>status := a\<rparr>) = stk s"
  "stk (s\<lparr>receiveRegister := b\<rparr>) = stk s"
  "stk (s\<lparr>idByteIndex := c\<rparr>) = stk s"
  "stk (s\<lparr>sPad := d\<rparr>) = stk s"
  "stk (s\<lparr>busLog := e\<rparr>) = stk s"
  "stk (s\<lparr>debugPin := f\<rparr>) = stk s"
  "stk (s\<lparr>debugOutput := g\<rparr>) = stk s"
  "stk (s\<lparr>ledAlert := h\<rparr>) = stk s"
  "stk (s\<lparr>deviceAddr := k\<rparr>) = stk s"
  by (simp_all add: stk_def)

lemma stack_ok_update [simp]:
  "stack_ok (s\<lparr>status := a\<rparr>) = stack_ok s"
  "stack_ok (s\<lparr>receiveRegister := b\<rparr>) = stack_ok s"
  "stack_ok (s\<lparr>idByteIndex := c\<rparr>) = stack_ok s"
  "stack_ok (s\<lparr>sPad := d\<rparr>) = stack_ok s"
  "stack_ok (s\<lparr>busLog := e\<rparr>) = stack_ok s"
  "stack_ok (s\<lparr>debugPin := f\<rparr>) = stack_ok s"
  "stack_ok (s\<lparr>debugOutput := g\<rparr>) = stack_ok s"
  "stack_ok (s\<lparr>ledAlert := h\<rparr>) = stack_ok s"
  "stack_ok (s\<lparr>deviceAddr := k\<rparr>) = stack_ok s"
  by (simp_all add: stack_ok_def)

lemmas vm_simps =
  popE_hd stk_pop_to stack_ok_pop_to push_is_push_to stk_push_to
  bindE_def continue_def YieldFor_def pushSendOneByte_def
  pullBusLow_def releaseBus_def delay_us_def sampleBus_def

lemma encs_Cons [simp]: "encs (i # p) = enc i @ encs p"
  by (simp add: encs_def)

lemma encs_Nil [simp]: "encs [] = []"
  by (simp add: encs_def)

lemma encs_append [simp]: "encs (p @ q) = encs p @ encs q"
  by (simp add: encs_def)

lemma sim_Reset:
  assumes "decodes s m" and "prog m = I_Reset # rest"
    and "length (encs rest) + need I_Reset \<le> stackSize"
  shows "\<exists>r. step line s = Inr r \<and> rel_out r (texec line I_Reset rest m)"
  using assms
  by (simp add: decodes_def step_def top_zero_iff vm_simps exec_Reset_def stackSize_def
      opcode_defs)

lemma sim_SendRemainingBits:
  assumes "decodes s m" and "prog m = I_SendRemainingBits n v # rest"
    and "length (encs rest) + need (I_SendRemainingBits n v) \<le> stackSize"
  shows "\<exists>r. step line s = Inr r \<and> rel_out r (texec line (I_SendRemainingBits n v) rest m)"
  using assms
  by (simp add: decodes_def step_def top_zero_iff vm_simps exec_SendRemainingBits_def
      stackSize_def opcode_defs Let_def)

lemma sim_BusLow:
  assumes "decodes s m" and "prog m = I_BusLow # rest"
    and "length (encs rest) + need I_BusLow \<le> stackSize"
  shows "\<exists>r. step line s = Inr r \<and> rel_out r (texec line I_BusLow rest m)"
  using assms
  by (simp add: decodes_def step_def top_zero_iff vm_simps exec_BusLow_def stackSize_def
      opcode_defs Let_def)

lemma sim_BusRelease:
  assumes "decodes s m" and "prog m = I_BusRelease # rest"
    and "length (encs rest) + need I_BusRelease \<le> stackSize"
  shows "\<exists>r. step line s = Inr r \<and> rel_out r (texec line I_BusRelease rest m)"
  using assms
  by (simp add: decodes_def step_def top_zero_iff vm_simps exec_BusRelease_def stackSize_def
      opcode_defs Let_def)

lemma sim_ClearBusyStatus:
  assumes "decodes s m" and "prog m = I_ClearBusyStatus # rest"
    and "length (encs rest) + need I_ClearBusyStatus \<le> stackSize"
  shows "\<exists>r. step line s = Inr r \<and> rel_out r (texec line I_ClearBusyStatus rest m)"
  using assms
  by (simp add: decodes_def step_def top_zero_iff vm_simps exec_ClearBusyStatus_def stackSize_def
      opcode_defs Let_def)

lemma sim_ReadScratchPad:
  assumes "decodes s m" and "prog m = I_ReadScratchPad # rest"
    and "length (encs rest) + need I_ReadScratchPad \<le> stackSize"
  shows "\<exists>r. step line s = Inr r \<and> rel_out r (texec line I_ReadScratchPad rest m)"
  using assms
  by (simp add: decodes_def step_def top_zero_iff vm_simps exec_ReadScratchPad_def stackSize_def
      opcode_defs Let_def)

lemma sim_StartIDSend:
  assumes "decodes s m" and "prog m = I_StartIDSend # rest"
    and "length (encs rest) + need I_StartIDSend \<le> stackSize"
  shows "\<exists>r. step line s = Inr r \<and> rel_out r (texec line I_StartIDSend rest m)"
  using assms
  by (simp add: decodes_def step_def top_zero_iff vm_simps exec_StartIDSend_def stackSize_def
      opcode_defs Let_def)

lemma sim_BusSample:
  assumes "decodes s m" and "prog m = I_BusSample # rest"
    and "length (encs rest) + need I_BusSample \<le> stackSize"
  shows "\<exists>r. step line s = Inr r \<and> rel_out r (texec line I_BusSample rest m)"
  using assms
  by (simp add: decodes_def step_def top_zero_iff vm_simps exec_BusSample_def stackSize_def
      opcode_defs Let_def)

lemma sim_WaitForBusRelease:
  assumes "decodes s m" and "prog m = I_WaitForBusRelease # rest"
    and "length (encs rest) + need I_WaitForBusRelease \<le> stackSize"
  shows "\<exists>r. step line s = Inr r \<and> rel_out r (texec line I_WaitForBusRelease rest m)"
  using assms
  by (simp add: decodes_def step_def top_zero_iff vm_simps exec_WaitForBusRelease_def stackSize_def
      opcode_defs Let_def)

lemma sim_Yield:
  assumes "decodes s m" and "prog m = I_Yield tics # rest"
  shows "\<exists>r. step line s = Inr r \<and> rel_out r (texec line (I_Yield tics) rest m)"
  using assms
  by (simp add: decodes_def step_def top_zero_iff vm_simps exec_Yield_def stackSize_def
      opcode_defs Let_def)

lemma sim_SendRemainingIDBytes:
  assumes "decodes s m" and "prog m = I_SendRemainingIDBytes # rest"
    and "length (encs rest) + need I_SendRemainingIDBytes \<le> stackSize"
    and "length (m_addr m) = 8"
  shows "\<exists>r. step line s = Inr r \<and> rel_out r (texec line I_SendRemainingIDBytes rest m)"
  using assms
  by (simp add: decodes_def step_def top_zero_iff vm_simps exec_SendRemainingIDBytes_def
      stackSize_def opcode_defs Let_def)

lemma sim_TestTimings:
  assumes "decodes s m" and "prog m = I_TestTimings lo hi # rest"
    and "length (encs rest) + need (I_TestTimings lo hi) \<le> stackSize"
  shows "\<exists>r. step line s = Inr r \<and> rel_out r (texec line (I_TestTimings lo hi) rest m)"
  using assms
  by (simp add: decodes_def step_def top_zero_iff vm_simps exec_TestTimings_def
      stackSize_def opcode_defs Let_def test_delay_def toggleDebugLine_def)

lemma pad_index:
  assumes "unat (p::byte) < 72" "unat (p + 1) mod 8 = 0"
  shows "unat ((word_of_nat (unat (p + 1) div 8) :: byte) - 1) = unat (p + 1) div 8 - 1"
    and "unat (p + 1) div 8 - 1 < 9"
proof -
  define q where "q = unat (p + 1)"
  define k where "k = q div 8"
  from assms(1) have p1: "q = Suc (unat p)"
    by (simp add: q_def unat_word_ariths)
  have "q = 8 * k + q mod 8" by (simp add: k_def)
  with assms(2) have qk: "q = 8 * k" by (simp add: q_def)
  with p1 have k0: "0 < k" by (cases k) simp_all
  from p1 assms(1) qk have k9: "k \<le> 9" by simp
  from k0 k9 have u: "unat (word_of_nat k :: byte) = k"
    by (simp add: unat_of_nat)
  with k0 have "(word_of_nat k :: byte) \<noteq> 0" by auto
  then have "unat ((word_of_nat k :: byte) - 1) = unat (word_of_nat k :: byte) - 1"
    by (rule unat_top_pred)
  with u show "unat ((word_of_nat (unat (p + 1) div 8) :: byte) - 1) = unat (p + 1) div 8 - 1"
    by (simp add: k_def q_def)
  from k0 k9 show "unat (p + 1) div 8 - 1 < 9" by (simp add: k_def q_def)
qed

lemma sim_ReadRemainingBits:
  assumes "decodes s m" and "prog m = I_ReadRemainingBits p # rest"
    and "length (encs rest) + need (I_ReadRemainingBits p) \<le> stackSize"
    and "unat p < 72" and "length (m_pad m) = 9"
  shows "\<exists>r. step line s = Inr r \<and> rel_out r (texec line (I_ReadRemainingBits p) rest m)"
  using assms pad_index[of p]
  by (simp add: decodes_def step_def top_zero_iff vm_simps exec_ReadRemainingBits_def
      stackSize_def opcode_defs Let_def)

lemma dist_decreases:
  "tstep line m = Continue m' \<Longrightarrow> dist (prog m') < dist (prog m)"
proof (cases "prog m")
  case Nil
  assume "tstep line m = Continue m'"
  with Nil show ?thesis by (simp add: tstep_def)
next
  case (Cons i rest)
  assume "tstep line m = Continue m'"
  with Cons show ?thesis
    by (cases i) (auto simp: tstep_def Let_def split: if_splits)
qed

lemma instr_ok_cong:
  "length (m_pad m') = length (m_pad m) \<Longrightarrow> length (m_addr m') = length (m_addr m) \<Longrightarrow>
     instr_ok m' i = instr_ok m i"
  by (cases i) simp_all

lemma list_all_instr_ok_cong:
  "length (m_pad m') = length (m_pad m) \<Longrightarrow> length (m_addr m') = length (m_addr m) \<Longrightarrow>
     list_all (instr_ok m') p = list_all (instr_ok m) p"
  by (induction p) (simp_all add: instr_ok_cong[of m' m])

lemma texec_pad_length:
  "length (m_pad (out_state (texec line i rest m))) = length (m_pad m)"
  by (cases i) (simp_all add: Let_def)

lemma texec_addr:
  "m_addr (out_state (texec line i rest m)) = m_addr m"
  by (cases i) (simp_all add: Let_def)

lemma texec_sound:
  assumes "length (encs rest) + need i \<le> stackSize" "peak rest \<le> stackSize"
    "instr_ok m i" "list_all (instr_ok m) rest"
  shows "peak (prog (out_state (texec line i rest m))) \<le> stackSize
       \<and> list_all (instr_ok m) (prog (out_state (texec line i rest m)))"
proof (cases i)
  case (I_ReadRemainingBits p)
  with assms(3) have p: "unat p < 72" by simp
  then have p1: "unat (p + 1) = Suc (unat p)" by (simp add: unat_word_ariths)
  have "unat (p + 1) < 72" if "unat (p + 1) mod 8 \<noteq> 0"
  proof (rule ccontr)
    assume "\<not> unat (p + 1) < 72"
    with p p1 have "unat (p + 1) = 72" by simp
    with that show False by simp
  qed
  with assms I_ReadRemainingBits show ?thesis
    by (simp add: Let_def stackSize_def)
qed (use assms in \<open>simp_all add: Let_def stackSize_def\<close>)

lemma tstep_sound: "sound m \<Longrightarrow> sound (out_state (tstep line m))"
proof (cases "prog m")
  case Nil
  assume "sound m"
  with Nil show ?thesis by (simp add: tstep_def)
next
  case (Cons i rest)
  assume "sound m"
  with Cons have a: "length (encs rest) + need i \<le> stackSize" "peak rest \<le> stackSize"
    "instr_ok m i" "list_all (instr_ok m) rest"
    by (simp_all add: sound_def)
  from texec_sound[OF a, of line] texec_pad_length[of line i rest m] texec_addr[of line i rest m]
    list_all_instr_ok_cong[of "out_state (texec line i rest m)" m]
  show ?thesis using Cons by (simp add: sound_def tstep_def)
qed

lemma sim_step:
  assumes "decodes s m" "sound m"
  shows "\<exists>r. step line s = Inr r \<and> rel_out r (tstep line m)"
proof (cases "prog m")
  case Nil
  with assms(1) show ?thesis
    by (simp add: decodes_def tstep_def step_def top_zero_iff)
next
  case (Cons i rest)
  with assms(2) have a: "length (encs rest) + need i \<le> stackSize" "instr_ok m i"
    by (simp_all add: sound_def)
  show ?thesis
  proof (cases i)
    case I_BusLow
    with sim_BusLow[OF assms(1), of rest line] Cons a show ?thesis by (simp add: tstep_def)
  next
    case (I_ReadRemainingBits p)
    with sim_ReadRemainingBits[OF assms(1), of p rest line] Cons a show ?thesis
      by (simp add: tstep_def)
  next
    case (I_SendRemainingBits n v)
    with sim_SendRemainingBits[OF assms(1), of n v rest line] Cons a show ?thesis
      by (simp add: tstep_def)
  next
    case I_SendRemainingIDBytes
    with sim_SendRemainingIDBytes[OF assms(1), of rest line] Cons a show ?thesis
      by (simp add: tstep_def)
  next
    case I_WaitForBusRelease
    with sim_WaitForBusRelease[OF assms(1), of rest line] Cons a show ?thesis
      by (simp add: tstep_def)
  next
    case I_BusRelease
    with sim_BusRelease[OF assms(1), of rest line] Cons a show ?thesis by (simp add: tstep_def)
  next
    case I_ClearBusyStatus
    with sim_ClearBusyStatus[OF assms(1), of rest line] Cons a show ?thesis
      by (simp add: tstep_def)
  next
    case I_BusSample
    with sim_BusSample[OF assms(1), of rest line] Cons a show ?thesis by (simp add: tstep_def)
  next
    case (I_TestTimings lo hi)
    with sim_TestTimings[OF assms(1), of lo hi rest line] Cons a show ?thesis
      by (simp add: tstep_def)
  next
    case I_ReadScratchPad
    with sim_ReadScratchPad[OF assms(1), of rest line] Cons a show ?thesis
      by (simp add: tstep_def)
  next
    case I_StartIDSend
    with sim_StartIDSend[OF assms(1), of rest line] Cons a show ?thesis by (simp add: tstep_def)
  next
    case I_Reset
    with sim_Reset[OF assms(1), of rest line] Cons a show ?thesis by (simp add: tstep_def)
  next
    case (I_Yield t)
    with sim_Yield[OF assms(1), of t rest line] Cons a show ?thesis by (simp add: tstep_def)
  qed
qed

lemma slice_sim:
  "decodes s m \<Longrightarrow> sound m \<Longrightarrow>
     \<exists>s'. doTimeslice line s = Some (Inr (fst (tslice line m), s'))
        \<and> doTimeslice_within (Suc (dist (prog m))) line s = Some (Inr (fst (tslice line m), s'))
        \<and> decodes s' (snd (tslice line m)) \<and> sound (snd (tslice line m))"
proof (induction line m arbitrary: s rule: tslice.induct)
  case (1 line m)
  from sim_step[OF "1.prems", of line] obtain r where
    r: "step line s = Inr r" "rel_out r (tstep line m)" by blast
  show ?case
  proof (cases "tstep line m")
    case (Return t m')
    with r obtain s' where s': "r = Return t s'" "decodes s' m'"
      by (cases r) auto
    from tstep_sound[OF "1.prems"(2), of line] Return have "sound m'" by simp
    have eq: "tslice line m = (t, m')"
      using Return by (subst tslice.simps) simp
    have "doTimeslice line s = Some (Inr (t, s'))"
      using r s' by (subst doTimeslice.simps) simp
    with r s' eq \<open>sound m'\<close> show ?thesis by simp
  next
    case (Continue m')
    with r obtain s1 where s1: "r = Continue s1" "decodes s1 m'"
      by (cases r) auto
    from tstep_sound[OF "1.prems"(2), of line] Continue have snd: "sound m'" by simp
    from "1.IH"[OF Continue s1(2) snd] obtain s' where
      s': "doTimeslice line s1 = Some (Inr (fst (tslice line m'), s'))"
        "doTimeslice_within (Suc (dist (prog m'))) line s1 = Some (Inr (fst (tslice line m'), s'))"
        "decodes s' (snd (tslice line m'))" "sound (snd (tslice line m'))"
      by blast
    have eq: "tslice line m = tslice line m'"
      using Continue by (subst tslice.simps) simp
    from dist_decreases[OF Continue] obtain k where
      k: "dist (prog m) = Suc (dist (prog m')) + k"
      by (metis less_iff_Suc_add add_Suc)
    have mono: "doTimeslice_within (n + j) line x = Some y"
      if "doTimeslice_within n line x = Some y" for n j x y
      using that
    proof (induction n arbitrary: x)
      case 0
      then show ?case by simp
    next
      case (Suc n)
      then show ?case by (auto split: sum.splits outcome.splits)
    qed
    from mono[OF s'(2), of k] k
    have w: "doTimeslice_within (dist (prog m)) line s1 = Some (Inr (fst (tslice line m'), s'))"
      by (simp add: add.commute)
    have "doTimeslice line s = doTimeslice line s1"
      using r s1 by (subst doTimeslice.simps) simp
    with s' eq w r s1 show ?thesis by simp
  qed
qed

section \<open>Sessions on decoded instructions\<close>

lemma decodes_log_update:
  "decodes s m \<Longrightarrow> decodes (s\<lparr>busLog := busLog s @ l\<rparr>) (m\<lparr>m_log := m_log m @ l\<rparr>)"
  by (simp add: decodes_def)

lemma sound_log_update [simp]: "sound (m\<lparr>m_log := l\<rparr>) = sound m"
  using list_all_instr_ok_cong[of "m\<lparr>m_log := l\<rparr>" m "prog m"] by (simp add: sound_def)

lemma isr_sim:
  assumes "decodes s m" "sound m"
  shows "\<exists>s'. ISR_TIMER2_COMPA line s = Some (Inr s') \<and> decodes s' (tisr line m)
            \<and> sound (tisr line m)"
proof -
  from slice_sim[OF assms, of line] obtain s1 where
    s1: "doTimeslice line s = Some (Inr (fst (tslice line m), s1))"
      "decodes s1 (snd (tslice line m))" "sound (snd (tslice line m))"
    by blast
  from decodes_log_update[OF s1(2), of "[TimerWait (fst (tslice line m))]"] s1(1,3)
  show ?thesis
    by (simp add: ISR_TIMER2_COMPA_def tisr_def split_beta)
qed

lemma interrupts_sim:
  "decodes s m \<Longrightarrow> sound m \<Longrightarrow>
     \<exists>s'. interrupts n line s = Some (Inr s') \<and> decodes s' (tinterrupts n line m)
        \<and> sound (tinterrupts n line m)"
proof (induction n arbitrary: s m)
  case 0
  then show ?case by simp
next
  case (Suc n)
  from isr_sim[OF Suc.prems, of line] obtain s1 where
    s1: "ISR_TIMER2_COMPA line s = Some (Inr s1)" "decodes s1 (tisr line m)"
      "sound (tisr line m)"
    by blast
  from Suc.IH[OF s1(2,3)] s1(1) show ?case by simp
qed

lemma flushed_stack_ok: "length (theCode s) = stackSize \<Longrightarrow> stack_ok (flushStack s)"
  by (simp add: stack_ok_def flushStack_def)

lemma flushed_stk [simp]: "stk (flushStack s) = []"
  by (simp add: flushStack_def stk_def)

lemma flushStack_frame [simp]:
  "status (flushStack s) = status s"
  "receiveRegister (flushStack s) = receiveRegister s"
  "deviceAddr (flushStack s) = deviceAddr s"
  "idByteIndex (flushStack s) = idByteIndex s"
  "sPad (flushStack s) = sPad s"
  "busLog (flushStack s) = busLog s"
  by (simp_all add: flushStack_def)

lemma flushStack_update:
  "flushStack (s\<lparr>deviceAddr := a, sPad := b\<rparr>) = (flushStack s)\<lparr>deviceAddr := a, sPad := b\<rparr>"
  by (simp add: flushStack_def)

lemma resetAsync_decodes:
  assumes "length (theCode s) = stackSize"
  shows "\<exists>s'. resetAsync s = Inr s' \<and>
     decodes s' ((machine_of [I_Reset, I_ClearBusyStatus] s)\<lparr>m_status := StillBusy\<rparr>)"
  using flushed_stack_ok[OF assms]
  by (simp add: resetAsync_def vm_simps decodes_def machine_of_def stackSize_def opcode_defs)

lemma readScratchpadAsync_decodes:
  assumes "length (theCode s) = stackSize"
  shows "\<exists>s'. readScratchpadAsync a p s = Inr s' \<and>
     decodes s' ((machine_of [I_ReadScratchPad, I_ClearBusyStatus] s)
                   \<lparr>m_status := StillBusy, m_addr := a, m_pad := p\<rparr>)"
  using flushed_stack_ok[OF assms]
  by (simp add: readScratchpadAsync_def vm_simps decodes_def machine_of_def stackSize_def
      opcode_defs flushStack_update)

lemma convertAllTemperaturesAsync_decodes:
  assumes "length (theCode s) = stackSize"
  shows "\<exists>s'. convertAllTemperaturesAsync s = Inr s' \<and>
     decodes s' ((machine_of [I_Reset, I_SendRemainingBits 8 SKIPROMWILDCARD,
                              I_SendRemainingBits 8 STARTCONVO, I_WaitForBusRelease] s)
                   \<lparr>m_status := DevicesAreBusy\<rparr>)"
  using flushed_stack_ok[OF assms]
  by (simp add: convertAllTemperaturesAsync_def vm_simps decodes_def machine_of_def
      stackSize_def opcode_defs)

lemma doTestTimings_decodes:
  assumes "length (theCode s) = stackSize"
  shows "\<exists>s'. doTestTimings r s = Inr s' \<and>
     decodes s' ((machine_of [I_TestTimings (ucast (r AND 0xFF)) (ucast (drop_bit 8 r)),
                              I_BusRelease, I_ClearBusyStatus] s)
                   \<lparr>m_status := StillBusy\<rparr>)"
  using flushed_stack_ok[OF assms]
  by (simp add: doTestTimings_def vm_simps decodes_def machine_of_def stackSize_def opcode_defs)

lemma decodes_stack:
  "decodes s m \<Longrightarrow> take (unat (topOfStack s)) (theCode s) = rev (encs (prog m))"
  by (auto simp: decodes_def stk_def rev_swap)

lemma decodes_empty: "decodes s m \<Longrightarrow> prog m = [] \<Longrightarrow> topOfStack s = 0"
  by (simp add: decodes_def top_zero_iff)

lemma sound_reset [simp]:
  "sound ((machine_of [I_Reset, I_ClearBusyStatus] s)\<lparr>m_status := StillBusy\<rparr>)"
  by (simp add: sound_def machine_of_def stackSize_def)

lemma tinterrupts_unroll:
  "tinterrupts 1 line m = tisr line m"
  "tinterrupts 2 line m = tisr line (tisr line m)"
  "tinterrupts 3 line m = tisr line (tisr line (tisr line m))"
  "tinterrupts 4 line m = tisr line (tisr line (tisr line (tisr line m)))"
  by (simp_all add: numeral_2_eq_2 numeral_3_eq_3 eval_nat_numeral(2)[of "num.Bit0 num.One"])

lemma tinterrupts_add: "tinterrupts (a + b) line m = tinterrupts b line (tinterrupts a line m)"
  by (induction a arbitrary: m) simp_all

lemma tisr_Reset:
  assumes "prog m = I_Reset # rest"
  shows "tisr line m =
     m\<lparr>prog := [I_BusRelease, I_Yield Micros70, I_BusSample, I_Yield Micros410] @ rest,
       m_log := m_log m @ [PulledLow, TimerWait Micros480]\<rparr>"
  using assms by (simp add: tisr_def tslice.simps tstep_def)

lemma tisr_BusRelease_Yield:
  assumes "prog m = I_BusRelease # I_Yield tics # rest"
  shows "tisr line m =
     m\<lparr>prog := rest, m_log := m_log m @ [Released, DelayUs 10, TimerWait tics]\<rparr>"
  using assms by (simp add: tisr_def tslice.simps tstep_def)

lemma tisr_BusSample_Yield:
  assumes "prog m = I_BusSample # I_Yield tics # rest"
  shows "tisr line m =
     m\<lparr>prog := rest,
       m_status := (if line (m_log m @ [Released]) then m_status m OR NoDeviceOnBus
                    else m_status m),
       m_log := m_log m @ [Released, Sampled (line (m_log m @ [Released])), TimerWait tics]\<rparr>"
  using assms by (simp add: tisr_def tslice.simps tstep_def Let_def)

lemma tisr_ClearBusy_end:
  assumes "prog m = [I_ClearBusyStatus]"
  shows "tisr line m =
     m\<lparr>prog := [], m_status := m_status m AND NOT StillBusy,
       m_log := m_log m @ [TimerWait 255]\<rparr>"
  using assms by (simp add: tisr_def tslice.simps tstep_def Let_def)

lemma tinterrupts_Reset:
  assumes "prog m = I_Reset # rest"
  shows "tinterrupts 3 line m =
     m\<lparr>prog := rest,
       m_status := (if line (m_log m @ reset_before_sample) then m_status m OR NoDeviceOnBus
                    else m_status m),
       m_log := m_log m @ reset_slices (line (m_log m @ reset_before_sample))\<rparr>"
  using assms
  by (simp add: tinterrupts_unroll tisr_Reset tisr_BusRelease_Yield tisr_BusSample_Yield
      reset_slices_def reset_before_sample_def)

text \<open>
  Claim C6, as the code has it. After \<open>resetAsync\<close> the first turn of the loop expands
  \<open>Reset\<close> into six instructions with three \<open>Yield\<close>s among them. On a bus where the
  presence sample reads low, three timer interrupts drive the line low, wait
  \<open>Micros480\<close> tics, release it with the 10 microseconds of \<open>BusRelease\<close>, wait
  \<open>Micros70\<close> tics, release it again and sample it, and wait \<open>Micros410\<close> tics; the
  status is still \<open>StillBusy\<close> and \<open>ClearBusyStatus\<close> alone is on the stack. The
  fourth interrupt clears the status to 0, finds the stack empty and asks for the holdoff
  255.
\<close>

theorem reset_session_trace:
  assumes "length (theCode s) = stackSize"
    and "\<not> line (busLog s @ reset_before_sample)"
  shows "\<exists>s0 s1 s3 s4.
      resetAsync s = Inr s0
    \<and> step line s0 = Inr (Continue s1)
    \<and> take (unat (topOfStack s1)) (theCode s1) =
        [ClearBusyStatus, Micros410, Yield, BusSample, Micros70, Yield, BusRelease,
         Micros480, Yield, BusLow]
    \<and> interrupts 3 line s0 = Some (Inr s3)
    \<and> busLog s3 = busLog s @ [PulledLow, TimerWait Micros480, Released, DelayUs 10,
                               TimerWait Micros70, Released, Sampled False, TimerWait Micros410]
    \<and> status s3 = StillBusy
    \<and> take (unat (topOfStack s3)) (theCode s3) = [ClearBusyStatus]
    \<and> interrupts 4 line s0 = Some (Inr s4)
    \<and> busLog s4 = busLog s3 @ [TimerWait 255]
    \<and> status s4 = 0 \<and> topOfStack s4 = 0"
proof -
  let ?m = "(machine_of [I_Reset, I_ClearBusyStatus] s)\<lparr>m_status := StillBusy\<rparr>"
  from resetAsync_decodes[OF assms(1)] obtain s0 where
    s0: "resetAsync s = Inr s0" "decodes s0 ?m" by blast
  have snd: "sound ?m" by simp
  have p: "prog ?m = I_Reset # [I_ClearBusyStatus]" by (simp add: machine_of_def)
  have l: "m_log ?m = busLog s" by (simp add: machine_of_def)
  from sim_step[OF s0(2) snd, of line] obtain r where
    r: "step line s0 = Inr r" "rel_out r (tstep line ?m)" by blast
  then obtain s1 where s1: "r = Continue s1"
    "decodes s1 (?m\<lparr>prog := [I_BusLow, I_Yield Micros480, I_BusRelease, I_Yield Micros70,
                              I_BusSample, I_Yield Micros410, I_ClearBusyStatus]\<rparr>)"
    by (cases r) (simp_all add: tstep_def machine_of_def)
  from decodes_stack[OF s1(2)] have st1: "take (unat (topOfStack s1)) (theCode s1) =
        [ClearBusyStatus, Micros410, Yield, BusSample, Micros70, Yield, BusRelease,
         Micros480, Yield, BusLow]" by simp
  have t3: "tinterrupts 3 line ?m =
      ?m\<lparr>prog := [I_ClearBusyStatus], m_log := busLog s @ reset_slices False\<rparr>"
    using tinterrupts_Reset[OF p, of line] assms(2) l by simp
  from interrupts_sim[OF s0(2) snd, of 3 line] t3 obtain s3 where
    s3: "interrupts 3 line s0 = Some (Inr s3)"
      "decodes s3 (?m\<lparr>prog := [I_ClearBusyStatus], m_log := busLog s @ reset_slices False\<rparr>)"
    by auto
  have t4: "tinterrupts 4 line ?m =
      ?m\<lparr>prog := [], m_status := StillBusy AND NOT StillBusy,
         m_log := busLog s @ reset_slices False @ [TimerWait 255]\<rparr>"
  proof -
    have "tinterrupts 4 line ?m = tisr line (tinterrupts 3 line ?m)"
      by (simp add: tinterrupts_unroll)
    then show ?thesis
      by (simp add: t3 tisr_ClearBusy_end)
  qed
  from interrupts_sim[OF s0(2) snd, of 4 line] t4 obtain s4 where
    s4: "interrupts 4 line s0 = Some (Inr s4)"
      "decodes s4 (?m\<lparr>prog := [], m_status := StillBusy AND NOT StillBusy,
         m_log := busLog s @ reset_slices False @ [TimerWait 255]\<rparr>)"
    by auto
  from s3(2) have l3: "busLog s3 = busLog s @ reset_slices False" and st3: "status s3 = StillBusy"
    by (simp_all add: decodes_def)
  from decodes_stack[OF s3(2)] have k3: "take (unat (topOfStack s3)) (theCode s3) = [ClearBusyStatus]"
    by simp
  from s4(2) have l4: "busLog s4 = busLog s @ reset_slices False @ [TimerWait 255]"
    and st4: "status s4 = 0"
    by (simp_all add: decodes_def StillBusy_def)
  from decodes_empty[OF s4(2)] have k4: "topOfStack s4 = 0" by simp
  from s0(1) r(1) s1(1) st1 s3(1) l3 st3 k3 s4(1) l4 st4 k4 show ?thesis
    by (simp add: reset_slices_def reset_before_sample_def)
qed

theorem reset_session_trace_witness:
  "length (theCode power_on) = stackSize
   \<and> \<not> all_low_line (busLog power_on @ reset_before_sample)
   \<and> (\<exists>s0 s4. resetAsync power_on = Inr s0
        \<and> interrupts 4 all_low_line s0 = Some (Inr s4)
        \<and> busLog s4 = [PulledLow, TimerWait Micros480, Released, DelayUs 10,
                        TimerWait Micros70, Released, Sampled False, TimerWait Micros410,
                        TimerWait 255]
        \<and> status s4 = 0 \<and> topOfStack s4 = 0)"
proof -
  have a: "length (theCode power_on) = stackSize"
    by (simp add: power_on_def stackSize_def)
  have b: "\<not> all_low_line (busLog power_on @ reset_before_sample)"
    by (simp add: all_low_line_def)
  have c: "busLog power_on = []" by (simp add: power_on_def)
  from reset_session_trace[of power_on all_low_line, OF a b] obtain s0 s1 s3 s4 where
    h: "resetAsync power_on = Inr s0
    \<and> step all_low_line s0 = Inr (Continue s1)
    \<and> take (unat (topOfStack s1)) (theCode s1) =
        [ClearBusyStatus, Micros410, Yield, BusSample, Micros70, Yield, BusRelease,
         Micros480, Yield, BusLow]
    \<and> interrupts 3 all_low_line s0 = Some (Inr s3)
    \<and> busLog s3 = busLog power_on @ [PulledLow, TimerWait Micros480, Released, DelayUs 10,
                               TimerWait Micros70, Released, Sampled False, TimerWait Micros410]
    \<and> status s3 = StillBusy
    \<and> take (unat (topOfStack s3)) (theCode s3) = [ClearBusyStatus]
    \<and> interrupts 4 all_low_line s0 = Some (Inr s4)
    \<and> busLog s4 = busLog s3 @ [TimerWait 255]
    \<and> status s4 = 0 \<and> topOfStack s4 = 0"
    by (elim exE)
  then have "resetAsync power_on = Inr s0" "interrupts 4 all_low_line s0 = Some (Inr s4)"
    "busLog s4 = [PulledLow, TimerWait Micros480, Released, DelayUs 10,
                        TimerWait Micros70, Released, Sampled False, TimerWait Micros410,
                        TimerWait 255]" "status s4 = 0" "topOfStack s4 = 0"
    using c by simp_all
  with a b c show ?thesis by simp
qed

lemma reset_drained_value:
  "reset_drained = Some (Inr ([PulledLow, TimerWait Micros480, Released, DelayUs 10,
                        TimerWait Micros70, Released, Sampled False, TimerWait Micros410,
                        TimerWait 255], 0))"
proof -
  have a: "length (theCode power_on) = stackSize"
    by (simp add: power_on_def stackSize_def)
  have b: "\<not> all_low_line (busLog power_on @ reset_before_sample)"
    by (simp add: all_low_line_def)
  have c: "busLog power_on = []" by (simp add: power_on_def)
  let ?m = "(machine_of [I_Reset, I_ClearBusyStatus] power_on)\<lparr>m_status := StillBusy\<rparr>"
  from resetAsync_decodes[OF a] obtain s0 where
    s0: "resetAsync power_on = Inr s0" "decodes s0 ?m" by blast
  have snd: "sound ?m" by simp
  have p: "prog ?m = I_Reset # [I_ClearBusyStatus]" by (simp add: machine_of_def)
  have l: "m_log ?m = []" by (simp add: machine_of_def c)
  have t3: "tinterrupts 3 all_low_line ?m =
      ?m\<lparr>prog := [I_ClearBusyStatus], m_log := reset_slices False\<rparr>"
    using tinterrupts_Reset[OF p, of all_low_line] l by (simp add: all_low_line_def)
  have "tinterrupts 4 all_low_line ?m = tisr all_low_line (tinterrupts 3 all_low_line ?m)"
    by (simp add: tinterrupts_unroll)
  then have t4: "tinterrupts 4 all_low_line ?m =
      ?m\<lparr>prog := [], m_status := StillBusy AND NOT StillBusy,
         m_log := reset_slices False @ [TimerWait 255]\<rparr>"
    by (simp add: t3 tisr_ClearBusy_end)
  from interrupts_sim[OF s0(2) snd, of 4 all_low_line] t4 obtain s4 where
    s4: "interrupts 4 all_low_line s0 = Some (Inr s4)"
      "decodes s4 (?m\<lparr>prog := [], m_status := StillBusy AND NOT StillBusy,
         m_log := reset_slices False @ [TimerWait 255]\<rparr>)"
    by auto
  from s4(2) have "busLog s4 = reset_slices False @ [TimerWait 255]" "status s4 = 0"
    by (simp_all add: decodes_def StillBusy_def)
  with s0(1) s4(1) show ?thesis
    by (simp add: reset_drained_def reset_slices_def reset_before_sample_def)
qed

text \<open>
  Claim C6 as stated fails from the initial state on a bus that is always low: the log
  of the drained session is not drive-low, wait, release, wait, sample, wait (with or
  without the last idle holdoff), and \<open>Reset\<close> expands to three \<open>Yield\<close>s, not four.
\<close>

theorem reset_session_counterexample:
  "reset_drained \<noteq>
     Some (Inr ([PulledLow, TimerWait Micros480, Released, TimerWait Micros70, Sampled False,
                 TimerWait Micros410], 0))
   \<and> reset_drained \<noteq>
     Some (Inr ([PulledLow, TimerWait Micros480, Released, TimerWait Micros70, Sampled False,
                 TimerWait Micros410, TimerWait 255], 0))
   \<and> reset_yields = Some (Inr 3) \<and> reset_yields \<noteq> Some (Inr 4)"
proof -
  have a: "length (theCode power_on) = stackSize"
    by (simp add: power_on_def stackSize_def)
  let ?m = "(machine_of [I_Reset, I_ClearBusyStatus] power_on)\<lparr>m_status := StillBusy\<rparr>"
  from resetAsync_decodes[OF a] obtain s0 where
    s0: "resetAsync power_on = Inr s0" "decodes s0 ?m" by blast
  have snd: "sound ?m" by simp
  from sim_step[OF s0(2) snd, of all_low_line] obtain r where
    r: "step all_low_line s0 = Inr r" "rel_out r (tstep all_low_line ?m)" by blast
  then obtain s1 where s1: "r = Continue s1"
    "decodes s1 (?m\<lparr>prog := [I_BusLow, I_Yield Micros480, I_BusRelease, I_Yield Micros70,
                              I_BusSample, I_Yield Micros410, I_ClearBusyStatus]\<rparr>)"
    by (cases r) (simp_all add: tstep_def machine_of_def)
  from decodes_stack[OF s1(2)] have "take (unat (topOfStack s1)) (theCode s1) =
        [ClearBusyStatus, Micros410, Yield, BusSample, Micros70, Yield, BusRelease,
         Micros480, Yield, BusLow]" by simp
  with s0(1) r(1) s1(1) have y: "reset_yields = Some (Inr 3)"
    by (simp add: reset_yields_def reset_expanded_def opcode_defs micros_defs)
  show ?thesis by (simp add: reset_drained_value y)
qed

section \<open>Termination of the timeslice\<close>

lemma tracked_stack_ok: "tracked s \<Longrightarrow> length (theCode s) = stackSize"
  by (auto simp: tracked_def decodes_def stack_ok_def)

lemma tracked_idle:
  "length (theCode s) = stackSize \<Longrightarrow> topOfStack s = 0 \<Longrightarrow> tracked s"
  unfolding tracked_def
  by (rule exI[of _ "machine_of [] s"])
     (simp add: decodes_def stack_ok_def stk_def machine_of_def sound_def)

lemma do_call_tracked:
  assumes "tracked s" "call_ok c"
  shows "\<exists>s'. do_call c line s = Some (Inr s') \<and> tracked s'"
proof (cases c)
  case StartReset
  from resetAsync_decodes[OF tracked_stack_ok[OF assms(1)]] StartReset show ?thesis
    unfolding tracked_def by (auto intro: sound_reset)
next
  case (StartReadScratchpad a p)
  let ?m = "(machine_of [I_ReadScratchPad, I_ClearBusyStatus] s)
                   \<lparr>m_status := StillBusy, m_addr := a, m_pad := p\<rparr>"
  from assms(2) StartReadScratchpad have "sound ?m"
    by (simp add: sound_def machine_of_def stackSize_def)
  with readScratchpadAsync_decodes[OF tracked_stack_ok[OF assms(1)], of a p] StartReadScratchpad
  show ?thesis unfolding tracked_def by auto
next
  case StartConvertAll
  let ?m = "(machine_of [I_Reset, I_SendRemainingBits 8 SKIPROMWILDCARD,
                              I_SendRemainingBits 8 STARTCONVO, I_WaitForBusRelease] s)
                   \<lparr>m_status := DevicesAreBusy\<rparr>"
  have "sound ?m"
    by (simp add: sound_def machine_of_def stackSize_def)
  with convertAllTemperaturesAsync_decodes[OF tracked_stack_ok[OF assms(1)]] StartConvertAll
  show ?thesis unfolding tracked_def by auto
next
  case (StartTestTimings r)
  let ?m = "(machine_of [I_TestTimings (ucast (r AND 0xFF)) (ucast (drop_bit 8 r)),
                              I_BusRelease, I_ClearBusyStatus] s)
                   \<lparr>m_status := StillBusy\<rparr>"
  have "sound ?m"
    by (simp add: sound_def machine_of_def stackSize_def)
  with doTestTimings_decodes[OF tracked_stack_ok[OF assms(1)], of r] StartTestTimings
  show ?thesis unfolding tracked_def by auto
next
  case TimerInterrupt
  from assms(1) obtain m where "decodes s m" "sound m" unfolding tracked_def by blast
  from isr_sim[OF this, of line] TimerInterrupt show ?thesis
    unfolding tracked_def by auto
qed

lemma run_calls_tracked:
  "tracked s \<Longrightarrow> list_all call_ok calls \<Longrightarrow>
     \<exists>s'. run_calls calls line s = Some (Inr s') \<and> tracked s'"
proof (induction calls arbitrary: s)
  case Nil
  then show ?case by simp
next
  case (Cons c cs)
  from Cons.prems have "call_ok c" "list_all call_ok cs" by simp_all
  from do_call_tracked[OF Cons.prems(1) this(1), of line] obtain s1 where
    s1: "do_call c line s = Some (Inr s1)" "tracked s1" by blast
  from Cons.IH[OF s1(2) \<open>list_all call_ok cs\<close>] s1(1) show ?case by simp
qed

lemma dist_le_length: "dist p \<le> length p + 2"
  by (induction p rule: dist.induct) simp_all

lemma length_le_encs: "length p \<le> length (encs p)"
proof (induction p)
  case Nil
  show ?case by simp
next
  case (Cons i p)
  then show ?case by (cases i) simp_all
qed

lemma doTimeslice_within_mono:
  "doTimeslice_within n line s = Some y \<Longrightarrow> n \<le> k \<Longrightarrow> doTimeslice_within k line s = Some y"
proof (induction n arbitrary: s k)
  case 0
  then show ?case by simp
next
  case (Suc n)
  from Suc.prems(2) obtain k' where k: "k = Suc k'" "n \<le> k'" by (cases k) auto
  with Suc show ?case by (auto split: sum.splits outcome.splits)
qed

lemma tracked_timeslice:
  assumes "tracked s"
  shows "\<exists>tics s'. doTimeslice line s = Some (Inr (tics, s'))
            \<and> doTimeslice_within 23 line s = Some (Inr (tics, s'))"
proof -
  from assms obtain m where m: "decodes s m" "sound m" unfolding tracked_def by blast
  from m(1) have "length (encs (prog m)) \<le> stackSize"
    using length_stk[of s] by (simp add: decodes_def stack_ok_def)
  with dist_le_length[of "prog m"] length_le_encs[of "prog m"]
  have b: "Suc (dist (prog m)) \<le> 23" by (simp add: stackSize_def)
  from slice_sim[OF m, of line] obtain s' where
    "doTimeslice line s = Some (Inr (fst (tslice line m), s'))"
    "doTimeslice_within (Suc (dist (prog m))) line s = Some (Inr (fst (tslice line m), s'))"
    by blast
  with doTimeslice_within_mono[OF this(2) b] show ?thesis by blast
qed

lemma top_opcode_stk:
  "stack_ok s \<Longrightarrow> top_opcode s = (case stk s of [] \<Rightarrow> None | x # xs \<Rightarrow> Some x)"
proof (cases "stk s")
  case Nil
  assume "stack_ok s"
  with Nil show ?thesis by (simp add: top_opcode_def top_zero_iff)
next
  case (Cons x xs)
  assume ok: "stack_ok s"
  from pop_is_pop_to(1)[OF ok Cons] stk_nonempty_top[OF ok Cons] ok
  show ?thesis using Cons
    by (auto simp: top_opcode_def popE_def pop_def Let_def stack_ok_def unat_top_pred
        split: if_splits)
qed

lemma hd_enc_cases:
  "hd (enc i) = SendRemainingBits \<longleftrightarrow> (\<exists>n v. i = I_SendRemainingBits n v)"
  "hd (enc i) = ReadRemainingBits \<longleftrightarrow> (\<exists>p. i = I_ReadRemainingBits p)"
  "hd (enc i) = TestTimings \<longleftrightarrow> (\<exists>lo hi. i = I_TestTimings lo hi)"
  "hd (enc i) = WaitForBusRelease \<longleftrightarrow> i = I_WaitForBusRelease"
  by (cases i; simp add: opcode_defs)+

lemma top_opcode_decodes:
  assumes "decodes s m" "top_opcode s = Some op"
  shows "\<exists>i rest. prog m = i # rest \<and> hd (enc i) = op"
proof (cases "prog m")
  case Nil
  with assms show ?thesis by (simp add: decodes_def top_opcode_stk)
next
  case (Cons i rest)
  with assms show ?thesis by (cases i) (simp_all add: decodes_def top_opcode_stk)
qed

lemma texec_yield_on_top:
  assumes "hd (enc i) \<in> {SendRemainingBits, ReadRemainingBits, TestTimings, WaitForBusRelease}"
  shows "\<exists>m'. texec line i rest m = Continue m' \<and>
     ((\<exists>tics rest'. prog m' = I_Yield tics # rest') \<or>
      (i = I_WaitForBusRelease \<and> line (m_log m @ [Released]) \<and> prog m' = rest))"
  using assms by (cases i) (auto simp: opcode_defs Let_def)

lemma repush_under_yield:
  assumes "tracked s" and "top_opcode s = Some op"
    and "op \<in> {SendRemainingBits, ReadRemainingBits, TestTimings, WaitForBusRelease}"
  shows "\<exists>s'. step line s = Inr (Continue s') \<and>
     (top_opcode s' = Some Yield \<or>
      (op = WaitForBusRelease \<and> line (busLog s @ [Released])))"
proof -
  from assms(1) obtain m where m: "decodes s m" "sound m" unfolding tracked_def by blast
  from top_opcode_decodes[OF m(1) assms(2)] obtain i rest where
    i: "prog m = i # rest" "hd (enc i) = op" by blast
  from texec_yield_on_top[of i line rest m] i(2) assms(3) obtain m' where
    m': "texec line i rest m = Continue m'"
      "(\<exists>tics rest'. prog m' = I_Yield tics # rest') \<or>
       (i = I_WaitForBusRelease \<and> line (m_log m @ [Released]) \<and> prog m' = rest)"
    by blast
  from sim_step[OF m, of line] obtain r where
    r: "step line s = Inr r" "rel_out r (tstep line m)" by blast
  with i(1) m'(1) obtain s' where s': "r = Continue s'" "decodes s' m'"
    by (cases r) (simp_all add: tstep_def)
  from m'(2) show ?thesis
  proof
    assume "\<exists>tics rest'. prog m' = I_Yield tics # rest'"
    then obtain tics rest' where "prog m' = I_Yield tics # rest'" by blast
    with s'(2) have "top_opcode s' = Some Yield"
      by (simp add: decodes_def top_opcode_stk)
    with r(1) s'(1) show ?thesis by simp
  next
    assume w: "i = I_WaitForBusRelease \<and> line (m_log m @ [Released]) \<and> prog m' = rest"
    with i(2) have "op = WaitForBusRelease" by simp
    moreover from m(1) w have "line (busLog s @ [Released])" by (simp add: decodes_def)
    ultimately show ?thesis using r(1) s'(1) by simp
  qed
qed

lemma run_calls_interrupts:
  "run_calls (replicate n TimerInterrupt) line s = interrupts n line s"
  by (induction n arbitrary: s) (simp_all split: option.splits sum.splits)

lemma convert_reaches_send:
  "\<exists>s1. run_calls [StartConvertAll, TimerInterrupt, TimerInterrupt, TimerInterrupt]
           all_low_line power_on = Some (Inr s1)
      \<and> top_opcode s1 = Some SendRemainingBits"
proof -
  let ?m = "(machine_of [I_Reset, I_SendRemainingBits 8 SKIPROMWILDCARD,
                         I_SendRemainingBits 8 STARTCONVO, I_WaitForBusRelease] power_on)
              \<lparr>m_status := DevicesAreBusy\<rparr>"
  from convertAllTemperaturesAsync_decodes[OF power_on_code] obtain s0 where
    s0: "convertAllTemperaturesAsync power_on = Inr s0" "decodes s0 ?m" by blast
  have sm: "sound ?m" by (simp add: sound_def machine_of_def stackSize_def)
  from interrupts_sim[OF s0(2) sm, of 3 all_low_line] obtain s1 where
    s1: "interrupts 3 all_low_line s0 = Some (Inr s1)"
      "decodes s1 (tinterrupts 3 all_low_line ?m)" by blast
  have p: "prog ?m = I_Reset # [I_SendRemainingBits 8 SKIPROMWILDCARD,
                         I_SendRemainingBits 8 STARTCONVO, I_WaitForBusRelease]"
    by (simp add: machine_of_def)
  have "prog (tinterrupts 3 all_low_line ?m) = [I_SendRemainingBits 8 SKIPROMWILDCARD,
                         I_SendRemainingBits 8 STARTCONVO, I_WaitForBusRelease]"
    by (simp only: tinterrupts_Reset[OF p]) simp
  with s1(2) have t: "top_opcode s1 = Some SendRemainingBits"
    by (simp add: decodes_def top_opcode_stk encs_def)
  from s1(1) run_calls_interrupts[of 3 all_low_line s0]
  have "run_calls [TimerInterrupt, TimerInterrupt, TimerInterrupt] all_low_line s0
      = Some (Inr s1)"
    by (simp add: numeral_3_eq_3)
  with s0(1) t show ?thesis by simp
qed

text \<open>
  Claim C10. From an idle reader, after any sequence of session starts (with buffers of 8
  and 9 bytes) and timer interrupts, every interrupt of the sequence has returned, and a
  further call of \<open>doTimeslice\<close> returns a holdoff within 23 turns of its loop. When
  the opcode on top of the stack is one of \<open>SendRemainingBits\<close>, \<open>ReadRemainingBits\<close>,
  \<open>TestTimings\<close> and \<open>WaitForBusRelease\<close>, the turn of the loop leaves a \<open>Yield\<close> on
  top, but for \<open>WaitForBusRelease\<close> on a released bus, which pushes nothing.
\<close>

theorem doTimeslice_terminates_when_reachable:
  assumes "length (theCode s) = stackSize" and "topOfStack s = 0"
    and "list_all call_ok calls"
  shows "\<exists>s'. run_calls calls line s = Some (Inr s')
      \<and> (\<exists>tics s''. doTimeslice line s' = Some (Inr (tics, s''))
            \<and> doTimeslice_within 23 line s' = Some (Inr (tics, s'')))
      \<and> (\<forall>op. top_opcode s' = Some op
            \<and> op \<in> {SendRemainingBits, ReadRemainingBits, TestTimings, WaitForBusRelease}
          \<longrightarrow> (\<exists>s''. step line s' = Inr (Continue s'') \<and>
                 (top_opcode s'' = Some Yield \<or>
                  (op = WaitForBusRelease \<and> line (busLog s' @ [Released])))))"
proof -
  from run_calls_tracked[OF tracked_idle[OF assms(1,2)] assms(3), of line] obtain s' where
    s': "run_calls calls line s = Some (Inr s')" "tracked s'" by blast
  from tracked_timeslice[OF s'(2), of line] repush_under_yield[OF s'(2), of _ line] s'(1)
  show ?thesis by blast
qed

theorem doTimeslice_terminates_when_reachable_witness:
  "length (theCode power_on) = stackSize \<and> topOfStack power_on = 0
   \<and> list_all call_ok [StartReadScratchpad some_address (replicate 9 0), TimerInterrupt,
                        TimerInterrupt, StartConvertAll, TimerInterrupt]
   \<and> (\<exists>s'. run_calls [StartReadScratchpad some_address (replicate 9 0), TimerInterrupt,
                        TimerInterrupt, StartConvertAll, TimerInterrupt] all_low_line power_on
              = Some (Inr s')
         \<and> (\<exists>tics s''. doTimeslice all_low_line s' = Some (Inr (tics, s''))
               \<and> doTimeslice_within 23 all_low_line s' = Some (Inr (tics, s''))))
   \<and> list_all call_ok [StartConvertAll, TimerInterrupt, TimerInterrupt, TimerInterrupt]
   \<and> (\<exists>s'. run_calls [StartConvertAll, TimerInterrupt, TimerInterrupt, TimerInterrupt]
              all_low_line power_on = Some (Inr s')
         \<and> (\<exists>tics s''. doTimeslice all_low_line s' = Some (Inr (tics, s''))
               \<and> doTimeslice_within 23 all_low_line s' = Some (Inr (tics, s'')))
         \<and> top_opcode s' = Some SendRemainingBits
         \<and> (\<exists>s''. step all_low_line s' = Inr (Continue s'') \<and> top_opcode s'' = Some Yield))"
proof -
  have a: "topOfStack power_on = 0" by (simp add: power_on_def)
  have b: "list_all call_ok [StartReadScratchpad some_address (replicate 9 0), TimerInterrupt,
                        TimerInterrupt, StartConvertAll, TimerInterrupt]"
    by (simp add: some_address_def)
  have c: "list_all call_ok [StartConvertAll, TimerInterrupt, TimerInterrupt, TimerInterrupt]"
    by simp
  have w: "SendRemainingBits \<noteq> WaitForBusRelease" by (simp add: opcode_defs)
  from doTimeslice_terminates_when_reachable[OF power_on_code a b, of all_low_line]
  have 1: "\<exists>s'. run_calls [StartReadScratchpad some_address (replicate 9 0), TimerInterrupt,
                        TimerInterrupt, StartConvertAll, TimerInterrupt] all_low_line power_on
              = Some (Inr s')
         \<and> (\<exists>tics s''. doTimeslice all_low_line s' = Some (Inr (tics, s''))
               \<and> doTimeslice_within 23 all_low_line s' = Some (Inr (tics, s'')))"
    by blast
  from doTimeslice_terminates_when_reachable[OF power_on_code a c, of all_low_line]
  obtain s' where r:
    "run_calls [StartConvertAll, TimerInterrupt, TimerInterrupt, TimerInterrupt]
       all_low_line power_on = Some (Inr s')
     \<and> (\<exists>tics s''. doTimeslice all_low_line s' = Some (Inr (tics, s''))
               \<and> doTimeslice_within 23 all_low_line s' = Some (Inr (tics, s'')))
     \<and> (\<forall>op. top_opcode s' = Some op
            \<and> op \<in> {SendRemainingBits, ReadRemainingBits, TestTimings, WaitForBusRelease}
          \<longrightarrow> (\<exists>s''. step all_low_line s' = Inr (Continue s'') \<and>
                 (top_opcode s'' = Some Yield \<or>
                  (op = WaitForBusRelease \<and> all_low_line (busLog s' @ [Released])))))"
    by (elim exE)
  note s' = r[THEN conjunct1] r[THEN conjunct2, THEN conjunct1]
    r[THEN conjunct2, THEN conjunct2]
  from convert_reaches_send s'(1) have t: "top_opcode s' = Some SendRemainingBits" by auto
  with s'(3) w have "\<exists>s''. step all_low_line s' = Inr (Continue s'') \<and> top_opcode s'' = Some Yield"
    by blast
  with s'(1,2) t have 2: "\<exists>s'. run_calls [StartConvertAll, TimerInterrupt, TimerInterrupt, TimerInterrupt]
              all_low_line power_on = Some (Inr s')
         \<and> (\<exists>tics s''. doTimeslice all_low_line s' = Some (Inr (tics, s''))
               \<and> doTimeslice_within 23 all_low_line s' = Some (Inr (tics, s'')))
         \<and> top_opcode s' = Some SendRemainingBits
         \<and> (\<exists>s''. step all_low_line s' = Inr (Continue s'') \<and> top_opcode s'' = Some Yield)"
    by blast
  from power_on_code a b c 1 2 show ?thesis by blast
qed

section \<open>The read session\<close>

lemma tinterrupts_Continue:
  assumes "tstep line m = Continue m'"
  shows "tinterrupts (Suc n) line m = tinterrupts (Suc n) line m'"
proof -
  from assms have "tslice line m = tslice line m'" by (subst tslice.simps) simp
  then show ?thesis by (simp add: tisr_def)
qed

lemma tinterrupts_Return:
  assumes "tstep line m = Return t m'"
  shows "tinterrupts (Suc n) line m = tinterrupts n line (m'\<lparr>m_log := m_log m' @ [TimerWait t]\<rparr>)"
proof -
  from assms have "tslice line m = (t, m')" by (subst tslice.simps) simp
  then show ?thesis by (simp add: tisr_def)
qed

lemma send_last_bit:
  assumes "prog m = I_SendRemainingBits 1 v # rest"
  shows "tinterrupts (Suc (Suc j)) line m =
     tinterrupts (Suc j) line (m\<lparr>prog := rest, m_log := m_log m @ send_slice (v AND 0x01 = 1)\<rparr>)"
proof (cases "v AND 0x01 = 1")
  case True
  let ?m1 = "m\<lparr>prog := I_Yield Micros64 # rest,
                m_log := m_log m @ [PulledLow, DelayUs 6, Released]\<rparr>"
  have 1: "tstep line m = Continue ?m1" using assms True by (simp add: tstep_def)
  have 2: "tstep line ?m1 = Return Micros64 (?m1\<lparr>prog := rest\<rparr>)" by (simp add: tstep_def)
  have "tinterrupts (Suc (Suc j)) line m = tinterrupts (Suc (Suc j)) line ?m1"
    by (rule tinterrupts_Continue[OF 1])
  also note tinterrupts_Return[OF 2]
  finally show ?thesis using True by (simp add: send_slice_def del: tinterrupts.simps)
next
  case False
  let ?tl = "rest"
  let ?m1 = "m\<lparr>prog := I_Yield Micros60 # I_BusRelease # rest,
                m_log := m_log m @ [PulledLow]\<rparr>"
  let ?m2 = "m\<lparr>prog := I_BusRelease # rest,
                m_log := m_log m @ [PulledLow, TimerWait Micros60]\<rparr>"
  let ?m3 = "m\<lparr>prog := rest,
                m_log := m_log m @ [PulledLow, TimerWait Micros60, Released, DelayUs 10]\<rparr>"
  have 1: "tstep line m = Continue ?m1" using assms False by (simp add: tstep_def)
  have 2: "tstep line ?m1 = Return Micros60 (?m1\<lparr>prog := I_BusRelease # rest\<rparr>)"
    by (simp add: tstep_def)
  have 3: "tstep line ?m2 = Continue ?m3" by (simp add: tstep_def)
  have "tinterrupts (Suc (Suc j)) line m = tinterrupts (Suc (Suc j)) line ?m1"
    by (rule tinterrupts_Continue[OF 1])
  also note tinterrupts_Return[OF 2]
  also have "tinterrupts (Suc j) line
      (?m1\<lparr>prog := I_BusRelease # ?tl, m_log := m_log (?m1\<lparr>prog := I_BusRelease # ?tl\<rparr>) @
                 [TimerWait Micros60]\<rparr>) = tinterrupts (Suc j) line ?m2"
    by (simp del: tinterrupts.simps)
  also note tinterrupts_Continue[OF 3]
  finally show ?thesis using False by (simp add: send_slice_def del: tinterrupts.simps)
qed

lemma send_next_bit:
  assumes "prog m = I_SendRemainingBits n v # rest" "n - 1 \<noteq> 0"
  shows "tinterrupts (Suc (Suc j)) line m =
     tinterrupts (Suc j) line
       (m\<lparr>prog := I_SendRemainingBits (n - 1) (drop_bit 1 v) # rest,
          m_log := m_log m @ send_slice (v AND 0x01 = 1)\<rparr>)"
proof (cases "v AND 0x01 = 1")
  case True
  let ?again = "I_SendRemainingBits (n - 1) (drop_bit 1 v)"
  let ?m1 = "m\<lparr>prog := I_Yield Micros64 # ?again # rest,
                m_log := m_log m @ [PulledLow, DelayUs 6, Released]\<rparr>"
  have 1: "tstep line m = Continue ?m1" using assms True by (simp add: tstep_def)
  have 2: "tstep line ?m1 = Return Micros64 (?m1\<lparr>prog := ?again # rest\<rparr>)"
    by (simp add: tstep_def)
  have "tinterrupts (Suc (Suc j)) line m = tinterrupts (Suc (Suc j)) line ?m1"
    by (rule tinterrupts_Continue[OF 1])
  also note tinterrupts_Return[OF 2]
  finally show ?thesis using True by (simp add: send_slice_def del: tinterrupts.simps)
next
  case False
  let ?again = "I_SendRemainingBits (n - 1) (drop_bit 1 v)"
  let ?tl = "?again # rest"
  let ?m1 = "m\<lparr>prog := I_Yield Micros60 # I_BusRelease # ?again # rest,
                m_log := m_log m @ [PulledLow]\<rparr>"
  let ?m2 = "m\<lparr>prog := I_BusRelease # ?again # rest,
                m_log := m_log m @ [PulledLow, TimerWait Micros60]\<rparr>"
  let ?m3 = "m\<lparr>prog := ?again # rest,
                m_log := m_log m @ [PulledLow, TimerWait Micros60, Released, DelayUs 10]\<rparr>"
  have 1: "tstep line m = Continue ?m1" using assms False by (simp add: tstep_def)
  have 2: "tstep line ?m1 = Return Micros60 (?m1\<lparr>prog := I_BusRelease # ?again # rest\<rparr>)"
    by (simp add: tstep_def)
  have 3: "tstep line ?m2 = Continue ?m3" by (simp add: tstep_def)
  have "tinterrupts (Suc (Suc j)) line m = tinterrupts (Suc (Suc j)) line ?m1"
    by (rule tinterrupts_Continue[OF 1])
  also note tinterrupts_Return[OF 2]
  also have "tinterrupts (Suc j) line
      (?m1\<lparr>prog := I_BusRelease # ?tl, m_log := m_log (?m1\<lparr>prog := I_BusRelease # ?tl\<rparr>) @
                 [TimerWait Micros60]\<rparr>) = tinterrupts (Suc j) line ?m2"
    by (simp del: tinterrupts.simps)
  also note tinterrupts_Continue[OF 3]
  finally show ?thesis using False by (simp add: send_slice_def del: tinterrupts.simps)
qed

lemma send_bits:
  "prog m = I_SendRemainingBits n v # rest \<Longrightarrow> unat n = Suc k \<Longrightarrow>
     tinterrupts (Suc k + Suc j) line m =
       tinterrupts (Suc j) line (m\<lparr>prog := rest, m_log := m_log m @ bits_slices (Suc k) v\<rparr>)"
proof (induction k arbitrary: m n v)
  case 0
  then have "unat n = unat (1::byte)" by simp
  then have "n = 1" by (simp only: word_unat_eq_iff)
  with 0 send_last_bit[of m v rest j line] show ?case by simp
next
  case (Suc k)
  from Suc.prems(2) have nz: "n \<noteq> 0" by auto
  with Suc.prems(2) have n1: "unat (n - 1) = Suc k" by (simp add: unat_top_pred)
  then have n0: "n - 1 \<noteq> 0" by auto
  let ?m1 = "m\<lparr>prog := I_SendRemainingBits (n - 1) (drop_bit 1 v) # rest,
                m_log := m_log m @ send_slice (v AND 0x01 = 1)\<rparr>"
  have "tinterrupts (Suc (Suc k) + Suc j) line m = tinterrupts (Suc k + Suc j) line ?m1"
    using send_next_bit[OF Suc.prems(1) n0, of "k + Suc j" line] by simp
  also have "\<dots> = tinterrupts (Suc j) line
      (?m1\<lparr>prog := rest, m_log := m_log ?m1 @ bits_slices (Suc k) (drop_bit 1 v)\<rparr>)"
    by (rule Suc.IH[OF _ n1]) simp
  finally show ?case by simp
qed

lemma send_byte:
  assumes "prog m = I_SendRemainingBits 8 v # rest"
  shows "tinterrupts (8 + Suc j) line m =
       tinterrupts (Suc j) line (m\<lparr>prog := rest, m_log := m_log m @ byte_slices v\<rparr>)"
proof -
  have u: "unat (8 :: byte) = Suc 7" by simp
  have e: "(8::nat) = Suc 7" by simp
  show ?thesis unfolding byte_slices_def e by (rule send_bits[OF assms u])
qed

lemma sample_count_append [simp]:
  "sample_count (a @ b) = sample_count a + sample_count b"
  by (induction a rule: sample_count.induct) simp_all

lemma send_address:
  "prog m = I_SendRemainingIDBytes # rest \<Longrightarrow> unat (m_index m) = i \<Longrightarrow> i + r = 8 \<Longrightarrow>
   length (m_addr m) = 8 \<Longrightarrow>
     tinterrupts (8 * r + Suc j) line m =
       tinterrupts (Suc j) line
         (m\<lparr>prog := rest, m_index := 8,
            m_log := m_log m @ concat (map byte_slices (drop i (m_addr m)))\<rparr>)"
proof (induction r arbitrary: m i)
  case 0
  then have i: "unat (m_index m) = 8" by simp
  then have "unat (m_index m) = unat (8::byte)" by simp
  then have i8: "m_index m = 8" by (simp only: word_unat_eq_iff)
  have 1: "tstep line m = Continue (m\<lparr>prog := rest\<rparr>)"
    using 0 i by (simp add: tstep_def)
  have "m\<lparr>prog := rest\<rparr> = m\<lparr>prog := rest, m_index := 8, m_log := m_log m @ []\<rparr>"
    using i8 by simp
  with tinterrupts_Continue[OF 1, of j] 0 show ?case by (simp del: tinterrupts.simps)
next
  case (Suc r)
  then have i: "i < 8" "Suc i + r = 8" by simp_all
  let ?v = "m_addr m ! i"
  let ?m1 = "m\<lparr>prog := I_SendRemainingBits 8 ?v # I_SendRemainingIDBytes # rest,
               m_index := m_index m + 1\<rparr>"
  let ?m2 = "?m1\<lparr>prog := I_SendRemainingIDBytes # rest, m_log := m_log ?m1 @ byte_slices ?v\<rparr>"
  have 1: "tstep line m = Continue ?m1"
    using Suc.prems i by (simp add: tstep_def)
  have idx: "unat (m_index ?m2) = Suc i"
    using Suc.prems(2) i by (simp add: unat_word_ariths)
  have d: "drop i (m_addr m) = ?v # drop (Suc i) (m_addr m)"
    using i Suc.prems(4) by (simp add: Cons_nth_drop_Suc)
  have "tinterrupts (8 * Suc r + Suc j) line m = tinterrupts (8 + Suc (8 * r + j)) line m"
    by (simp del: tinterrupts.simps)
  also have "\<dots> = tinterrupts (8 + Suc (8 * r + j)) line ?m1"
    using tinterrupts_Continue[OF 1, of "7 + Suc (8 * r + j)"] by (simp del: tinterrupts.simps)
  also have "\<dots> = tinterrupts (Suc (8 * r + j)) line ?m2"
    by (rule send_byte) simp
  also have "\<dots> = tinterrupts (8 * r + Suc j) line ?m2"
    by (simp del: tinterrupts.simps)
  also have "\<dots> = tinterrupts (Suc j) line
         (?m2\<lparr>prog := rest, m_index := 8,
            m_log := m_log ?m2 @ concat (map byte_slices (drop (Suc i) (m_addr ?m2)))\<rparr>)"
    using Suc.prems(4) by (intro Suc.IH[OF _ idx i(2)]) simp_all
  finally show ?case using d by (simp del: tinterrupts.simps)
qed

lemma take_bit_Suc_byte:
  "(if bit w n then take_bit n w OR push_bit n 1 else take_bit n w) = take_bit (Suc n) w"
  for w :: byte
  by (rule bit_eqI) (auto simp: bit_take_bit_iff bit_or_iff bit_exp_iff less_Suc_eq)

lemma take_bit_8_byte: "take_bit 8 w = w" for w :: byte
  by (rule bit_eqI) (auto simp: bit_take_bit_iff dest: bit_imp_le_length)

lemma mod8_Suc:
  "Suc k mod 8 = 0 \<Longrightarrow> k mod 8 = 7 \<and> Suc k div 8 = Suc (k div 8)"
  "Suc k mod 8 \<noteq> 0 \<Longrightarrow> Suc k mod 8 = Suc (k mod 8) \<and> Suc k div 8 = k div 8"
  by presburger+

lemma read_one:
  assumes "prog m = I_ReadRemainingBits p # rest" and "unat p = k" and "k < 72"
    and "length (m_pad m) = 9" and "length dev = 9"
    and "sample_count (m_log m) = Suc k"
    and "m_receive m = take_bit (k mod 8) (dev ! (k div 8))"
    and "take (k div 8) (m_pad m) = take (k div 8) dev"
  defines "m' \<equiv> m\<lparr>prog := (if Suc k < 72 then [I_ReadRemainingBits (p + 1)] else []) @ rest,
                     m_receive := take_bit (Suc k mod 8) (dev ! (Suc k div 8)),
                     m_pad := (if Suc k mod 8 = 0 then (m_pad m)[k div 8 := dev ! (k div 8)]
                               else m_pad m),
                     m_log := m_log m @ read_slice (scratch_bit dev k)\<rparr>"
  shows "tinterrupts (Suc j) (scratchpad_device dev) m = tinterrupts j (scratchpad_device dev) m'"
    and "unat (p + 1) = Suc k"
    and "sample_count (m_log m') = Suc (Suc k)"
    and "take (Suc k div 8) (m_pad m') = take (Suc k div 8) dev"
    and "length (m_pad m') = 9"
proof -
  let ?line = "scratchpad_device dev"
  let ?w = "dev ! (k div 8)"
  let ?log1 = "m_log m @ [PulledLow, DelayUs 6, Released, DelayUs 9]"
  have bit: "?line ?log1 = scratch_bit dev k"
    using assms(3,6) by (simp add: scratchpad_device_def)
  show p1: "unat (p + 1) = Suc k"
    using assms(2,3) by (simp add: unat_word_ariths)
  have reg: "(if scratch_bit dev k then m_receive m OR push_bit (unat p mod 8) 1 else m_receive m)
      = take_bit (Suc (k mod 8)) ?w"
    using take_bit_Suc_byte[of ?w "k mod 8"] assms(2,7)
    by (simp add: scratch_bit_def split: if_splits)
  show "sample_count (m_log m') = Suc (Suc k)"
    using assms(6) by (simp add: m'_def read_slice_def)
  show "length (m_pad m') = 9" using assms(4) by (simp add: m'_def)
  have k8: "k div 8 < 9" using assms(3) by simp
  show "take (Suc k div 8) (m_pad m') = take (Suc k div 8) dev"
  proof (cases "Suc k mod 8 = 0")
    case True
    with mod8_Suc(1)[OF True] k8 assms(4,5,8) show ?thesis
      by (simp add: m'_def take_Suc_conv_app_nth)
  next
    case False
    with mod8_Suc(2)[OF False] assms(8) show ?thesis by (simp add: m'_def)
  qed
  show "tinterrupts (Suc j) ?line m = tinterrupts j ?line m'"
  proof (cases "Suc k mod 8 = 0")
    case True
    note e = mod8_Suc(1)[OF True]
    let ?m1 = "m\<lparr>prog := I_Yield Micros55 #
                        (if Suc k < 72 then [I_ReadRemainingBits (p + 1)] else []) @ rest,
                 m_receive := 0,
                 m_pad := (m_pad m)[k div 8 := ?w],
                 m_log := ?log1 @ [Sampled (scratch_bit dev k)]\<rparr>"
    have 1: "tstep ?line m = Continue ?m1"
      using assms(1) bit p1 True e reg
      by (simp add: tstep_def Let_def take_bit_8_byte)
    have 2: "tstep ?line ?m1 = Return Micros55
        (?m1\<lparr>prog := (if Suc k < 72 then [I_ReadRemainingBits (p + 1)] else []) @ rest\<rparr>)"
      by (simp add: tstep_def)
    have "tinterrupts (Suc j) ?line m = tinterrupts (Suc j) ?line ?m1"
      by (rule tinterrupts_Continue[OF 1])
    also note tinterrupts_Return[OF 2]
    also have "(?m1\<lparr>prog := (if Suc k < 72 then [I_ReadRemainingBits (p + 1)] else []) @ rest\<rparr>)
        \<lparr>m_log := m_log (?m1\<lparr>prog := (if Suc k < 72 then [I_ReadRemainingBits (p + 1)] else [])
            @ rest\<rparr>) @ [TimerWait Micros55]\<rparr> = m'"
      using True e by (intro machine.equality) (simp_all add: m'_def read_slice_def)
    finally show ?thesis .
  next
    case False
    note e = mod8_Suc(2)[OF False]
    from False assms(3) have lt: "Suc k < 72" by (cases "Suc k = 72") simp_all
    let ?m1 = "m\<lparr>prog := I_Yield Micros55 # I_ReadRemainingBits (p + 1) # rest,
                 m_receive := take_bit (Suc (k mod 8)) ?w,
                 m_log := ?log1 @ [Sampled (scratch_bit dev k)]\<rparr>"
    have 1: "tstep ?line m = Continue ?m1"
      using assms(1) bit p1 False reg
      by (simp add: tstep_def Let_def)
    have 2: "tstep ?line ?m1 = Return Micros55
        (?m1\<lparr>prog := I_ReadRemainingBits (p + 1) # rest\<rparr>)"
      by (simp add: tstep_def)
    have "tinterrupts (Suc j) ?line m = tinterrupts (Suc j) ?line ?m1"
      by (rule tinterrupts_Continue[OF 1])
    also note tinterrupts_Return[OF 2]
    also have "(?m1\<lparr>prog := I_ReadRemainingBits (p + 1) # rest\<rparr>)
        \<lparr>m_log := m_log (?m1\<lparr>prog := I_ReadRemainingBits (p + 1) # rest\<rparr>) @
             [TimerWait Micros55]\<rparr> = m'"
      using False e lt by (intro machine.equality) (simp_all add: m'_def read_slice_def)
    finally show ?thesis .
  qed
qed

lemma read_bits:
  "72 - k = n \<Longrightarrow> k \<le> 72 \<Longrightarrow>
   prog m = (if k < 72 then [I_ReadRemainingBits p] else []) @ rest \<Longrightarrow> unat p = k \<Longrightarrow>
   length (m_pad m) = 9 \<Longrightarrow> length dev = 9 \<Longrightarrow> sample_count (m_log m) = Suc k \<Longrightarrow>
   m_receive m = take_bit (k mod 8) (dev ! (k div 8)) \<Longrightarrow>
   take (k div 8) (m_pad m) = take (k div 8) dev \<Longrightarrow>
     tinterrupts (n + j) (scratchpad_device dev) m =
       tinterrupts j (scratchpad_device dev)
         (m\<lparr>prog := rest, m_receive := 0, m_pad := dev,
            m_log := m_log m @ read_slices dev k\<rparr>)"
proof (induction n arbitrary: k m p)
  case 0
  then have k: "k = 72" by simp
  with 0 have "m_pad m = dev" "m_receive m = 0" by simp_all
  with 0 k have "m\<lparr>prog := rest, m_receive := 0, m_pad := dev,
            m_log := m_log m @ read_slices dev k\<rparr> = m"
    by (simp add: read_slices_def)
  then show ?case by simp
next
  case (Suc n)
  then have k: "k < 72" "72 - Suc k = n" "Suc k \<le> 72" by simp_all
  with Suc.prems have pm: "prog m = I_ReadRemainingBits p # rest" by simp
  let ?m' = "m\<lparr>prog := (if Suc k < 72 then [I_ReadRemainingBits (p + 1)] else []) @ rest,
                     m_receive := take_bit (Suc k mod 8) (dev ! (Suc k div 8)),
                     m_pad := (if Suc k mod 8 = 0 then (m_pad m)[k div 8 := dev ! (k div 8)]
                               else m_pad m),
                     m_log := m_log m @ read_slice (scratch_bit dev k)\<rparr>"
  note r = read_one[OF pm Suc.prems(4) k(1) Suc.prems(5,6,7,8,9)]
  have "tinterrupts (Suc n + j) (scratchpad_device dev) m =
      tinterrupts (n + j) (scratchpad_device dev) ?m'"
    using r(1)[of "n + j"] by (simp del: tinterrupts.simps)
  also have "\<dots> = tinterrupts j (scratchpad_device dev)
         (?m'\<lparr>prog := rest, m_receive := 0, m_pad := dev,
            m_log := m_log ?m' @ read_slices dev (Suc k)\<rparr>)"
    using r(2-5) Suc.prems(6)
    by (intro Suc.IH[OF k(2,3), where p = "p + 1"]) simp_all
  finally have e: "tinterrupts (Suc n + j) (scratchpad_device dev) m =
      tinterrupts j (scratchpad_device dev)
         (?m'\<lparr>prog := rest, m_receive := 0, m_pad := dev,
            m_log := m_log ?m' @ read_slices dev (Suc k)\<rparr>)" .
  have "read_slice (scratch_bit dev k) @ read_slices dev (Suc k) = read_slices dev k"
    using k(1) by (simp add: read_slices_def upt_conv_Cons)
  then have "?m'\<lparr>prog := rest, m_receive := 0, m_pad := dev,
            m_log := m_log ?m' @ read_slices dev (Suc k)\<rparr> =
      m\<lparr>prog := rest, m_receive := 0, m_pad := dev, m_log := m_log m @ read_slices dev k\<rparr>"
    by (intro machine.equality) simp_all
  with e show ?case by (simp only:)
qed

lemma sample_count_bits_slices [simp]: "sample_count (bits_slices k v) = 0"
  by (induction k arbitrary: v) (simp_all add: send_slice_def)

lemma sample_count_byte_slices [simp]: "sample_count (byte_slices v) = 0"
  by (simp add: byte_slices_def del: bits_slices.simps)

lemma sample_count_address [simp]: "sample_count (concat (map byte_slices xs)) = 0"
  by (induction xs) simp_all

lemma sample_count_reset [simp]:
  "sample_count reset_before_sample = 0" "sample_count (reset_slices b) = 1"
  by (simp_all add: reset_slices_def reset_before_sample_def)

lemma sample_count_reads: "k \<le> 72 \<Longrightarrow> sample_count (read_slices dev k) = 72 - k"
proof (induction "72 - k" arbitrary: k)
  case 0
  then show ?case by (simp add: read_slices_def)
next
  case (Suc n)
  then have k: "k < 72" "n = 72 - Suc k" "Suc k \<le> 72" by simp_all
  have "read_slices dev k = read_slice (scratch_bit dev k) @ read_slices dev (Suc k)"
    using k(1) by (simp add: read_slices_def upt_conv_Cons)
  with Suc.hyps(1)[OF k(2,3)] k show ?case by (simp add: read_slice_def)
qed

lemma tinterrupts_Reset_then:
  assumes "prog m = I_Reset # rest" "\<not> line (m_log m @ reset_before_sample)"
  shows "tinterrupts (3 + j) line m =
     tinterrupts j line (m\<lparr>prog := rest, m_log := m_log m @ reset_slices False\<rparr>)"
proof -
  have "tinterrupts (3 + j) line m = tinterrupts j line (tinterrupts 3 line m)"
    by (rule tinterrupts_add)
  also have "tinterrupts 3 line m = m\<lparr>prog := rest, m_log := m_log m @ reset_slices False\<rparr>"
    using tinterrupts_Reset[OF assms(1), of line] assms(2)
    by (intro machine.equality) simp_all
  finally show ?thesis .
qed

lemma device_presence:
  "sample_count log = 0 \<or> 72 < sample_count log \<Longrightarrow> \<not> scratchpad_device dev log"
  by (auto simp: scratchpad_device_def Let_def)

lemma read_session_machine:
  assumes "prog m = [I_ReadScratchPad, I_ClearBusyStatus]"
    and "length (m_addr m) = 8" and "length (m_pad m) = 9" and "length dev = 9"
    and "sample_count (m_log m) = 0"
  shows "tinterrupts 158 (scratchpad_device dev) m =
           m\<lparr>prog := [I_ClearBusyStatus], m_receive := 0, m_index := 8, m_pad := dev,
             m_log := m_log m @ read_session_events (m_addr m) dev\<rparr>"
proof -
  let ?line = "scratchpad_device dev"
  let ?r5 = "[I_Reset, I_ClearBusyStatus]"
  let ?r4 = "I_ReadRemainingBits 0 # ?r5"
  let ?r3 = "I_SendRemainingBits 8 READSCRATCH # ?r4"
  let ?l2 = "m_log m @ reset_slices False"
  let ?l4 = "?l2 @ byte_slices SELECTDEVICE"
  let ?l5 = "?l4 @ concat (map byte_slices (m_addr m))"
  let ?l6 = "?l5 @ byte_slices READSCRATCH"
  let ?l7 = "?l6 @ read_slices dev 0"
  let ?m1 = "m\<lparr>prog := I_Reset # I_StartIDSend # ?r3, m_receive := 0\<rparr>"
  let ?m2 = "?m1\<lparr>prog := I_StartIDSend # ?r3, m_log := ?l2\<rparr>"
  let ?m3 = "?m2\<lparr>prog := I_SendRemainingBits 8 SELECTDEVICE # I_SendRemainingIDBytes # ?r3,
                 m_index := 0\<rparr>"
  let ?m4 = "?m3\<lparr>prog := I_SendRemainingIDBytes # ?r3, m_log := ?l4\<rparr>"
  let ?m5 = "?m4\<lparr>prog := ?r3, m_index := 8, m_log := ?l5\<rparr>"
  let ?m6 = "?m5\<lparr>prog := ?r4, m_log := ?l6\<rparr>"
  let ?m7 = "?m6\<lparr>prog := ?r5, m_receive := 0, m_pad := dev, m_log := ?l7\<rparr>"
  let ?m8 = "?m7\<lparr>prog := [I_ClearBusyStatus], m_log := ?l7 @ reset_slices False\<rparr>"
  have n: "(158::nat) = Suc 157" "(158::nat) = 3 + 155" "(155::nat) = Suc 154"
    "(155::nat) = 8 + Suc 146" "Suc 146 = 64 + Suc 82" "(64::nat) = 8 * 8" "Suc 82 = 8 + Suc 74"
    "Suc 74 = 72 + 3" "(3::nat) = 3 + 0"
    by simp_all
  have 1: "tstep ?line m = Continue ?m1" using assms(1) by (simp add: tstep_def)
  have 3: "tstep ?line ?m2 = Continue ?m3" by (simp add: tstep_def)
  have "tinterrupts 158 ?line m = tinterrupts (Suc 157) ?line m" by (simp only: n(1)[symmetric])
  also have "\<dots> = tinterrupts (Suc 157) ?line ?m1" by (rule tinterrupts_Continue[OF 1])
  also have "\<dots> = tinterrupts (3 + 155) ?line ?m1" by (simp only: n(1,2)[symmetric])
  also have "\<dots> = tinterrupts 155 ?line ?m2"
    using assms(5)
    by (subst tinterrupts_Reset_then[where rest = "I_StartIDSend # ?r3"])
       (simp_all add: device_presence del: tinterrupts.simps)
  also have "\<dots> = tinterrupts (Suc 154) ?line ?m2" by (simp only: n(3)[symmetric])
  also have "\<dots> = tinterrupts (Suc 154) ?line ?m3" by (rule tinterrupts_Continue[OF 3])
  also have "\<dots> = tinterrupts (8 + Suc 146) ?line ?m3" by (simp only: n(3,4)[symmetric])
  also have "\<dots> = tinterrupts (Suc 146) ?line ?m4"
    by (subst send_byte[where rest = "I_SendRemainingIDBytes # ?r3"])
       (simp_all del: tinterrupts.simps)
  also have "\<dots> = tinterrupts (8 * 8 + Suc 82) ?line ?m4" by (simp only: n(5,6))
  also have "\<dots> = tinterrupts (Suc 82) ?line ?m5"
    using assms(2)
    by (subst send_address[where rest = ?r3 and i = 0])
       (simp_all del: tinterrupts.simps)
  also have "\<dots> = tinterrupts (8 + Suc 74) ?line ?m5" by (simp only: n(7))
  also have "\<dots> = tinterrupts (Suc 74) ?line ?m6"
    by (subst send_byte[where rest = ?r4]) (simp_all del: tinterrupts.simps)
  also have "\<dots> = tinterrupts (72 + 3) ?line ?m6" by (simp only: n(8))
  also have "\<dots> = tinterrupts 3 ?line ?m7"
    using assms(3,4,5)
    by (subst read_bits[where k = 0 and p = 0 and rest = ?r5])
       (simp_all del: tinterrupts.simps)
  also have "\<dots> = tinterrupts (3 + 0) ?line ?m7" by simp
  also have "\<dots> = tinterrupts 0 ?line ?m8"
    using assms(5)
    by (subst tinterrupts_Reset_then[where rest = "[I_ClearBusyStatus]"])
       (simp_all add: device_presence sample_count_reads del: tinterrupts.simps)
  also have "\<dots> = m\<lparr>prog := [I_ClearBusyStatus], m_receive := 0, m_index := 8, m_pad := dev,
             m_log := m_log m @ read_session_events (m_addr m) dev\<rparr>"
    by (simp add: read_session_events_def)
  finally show ?thesis .
qed

lemma stk_top2:
  assumes "stack_ok t" "2 \<le> unat (topOfStack t)"
  shows "\<exists>rest. stk t = theCode t ! (unat (topOfStack t) - 1) #
                         theCode t ! (unat (topOfStack t) - 2) # rest"
proof -
  let ?n = "unat (topOfStack t)"
  from assms have le: "?n \<le> length (theCode t)" by (simp add: stack_ok_def)
  from assms(2) le have a: "?n - 1 < length (theCode t)" "?n - 2 < length (theCode t)" by simp_all
  from assms(2) have s: "Suc (?n - 1) = ?n" "Suc (?n - 2) = ?n - 1" by simp_all
  from take_Suc_conv_app_nth[OF a(1)] s(1)
  have 1: "take ?n (theCode t) = take (?n - 1) (theCode t) @ [theCode t ! (?n - 1)]" by simp
  from take_Suc_conv_app_nth[OF a(2)] s(2)
  have 2: "take (?n - 1) (theCode t) = take (?n - 2) (theCode t) @ [theCode t ! (?n - 2)]" by simp
  from 1 2 have "take ?n (theCode t) =
      take (?n - 2) (theCode t) @ [theCode t ! (?n - 2), theCode t ! (?n - 1)]" by simp
  then have "stk t = theCode t ! (?n - 1) # theCode t ! (?n - 2) # rev (take (?n - 2) (theCode t))"
    by (simp add: stk_def)
  then show ?thesis by blast
qed

lemma read_bit_folding:
  assumes "stack_ok t" and "2 \<le> unat (topOfStack t)"
    and "theCode t ! (unat (topOfStack t) - 1) = ReadRemainingBits"
    and "theCode t ! (unat (topOfStack t) - 2) = p"
    and "unat p < 72" and "length (sPad t) = 9"
  shows "\<exists>t'. step line t = Inr (Continue t')
     \<and> busLog t' = busLog t @ [PulledLow, DelayUs 6, Released, DelayUs 9,
          Sampled (line (busLog t @ [PulledLow, DelayUs 6, Released, DelayUs 9]))]
     \<and> (let reg = (if line (busLog t @ [PulledLow, DelayUs 6, Released, DelayUs 9])
                    then receiveRegister t OR push_bit (unat p mod 8) 1
                    else receiveRegister t)
        in if Suc (unat p) mod 8 = 0
           then sPad t' = (sPad t)[unat p div 8 := reg] \<and> receiveRegister t' = 0
           else sPad t' = sPad t \<and> receiveRegister t' = reg)"
proof -
  from stk_top2[OF assms(1,2)] assms(3,4) obtain rest where
    st: "stk t = ReadRemainingBits # p # rest" by auto
  from assms(5) have p1: "unat (p + 1) = Suc (unat p)" by (simp add: unat_word_ariths)
  have d: "Suc (unat p) div 8 - 1 = unat p div 8" if "Suc (unat p) mod 8 = 0"
    using mod8_Suc(1)[OF that] by simp
  show ?thesis
    using assms(1,5,6) st pad_index[of p] p1 d
    by (simp add: step_def top_zero_iff vm_simps exec_ReadRemainingBits_def
      stackSize_def opcode_defs Let_def)
qed

lemma bit_reads_append [simp]: "bit_reads (a @ b) = bit_reads a + bit_reads b"
  by (simp add: bit_reads_def)

lemma bit_reads_bits_slices [simp]: "bit_reads (bits_slices k v) = 0"
  by (induction k arbitrary: v) (simp_all add: send_slice_def bit_reads_def)

lemma bit_reads_address [simp]: "bit_reads (concat (map byte_slices xs)) = 0"
  by (induction xs) (simp_all add: byte_slices_def bit_reads_def[of "[]"] del: bits_slices.simps)

lemma bit_reads_reset [simp]: "bit_reads (reset_slices b) = 0"
  by (simp add: reset_slices_def reset_before_sample_def bit_reads_def)

lemma bit_reads_reads: "k \<le> 72 \<Longrightarrow> bit_reads (read_slices dev k) = 72 - k"
proof (induction "72 - k" arbitrary: k)
  case 0
  then show ?case by (simp add: read_slices_def bit_reads_def)
next
  case (Suc n)
  then have k: "k < 72" "n = 72 - Suc k" "Suc k \<le> 72" by simp_all
  have "read_slices dev k = read_slice (scratch_bit dev k) @ read_slices dev (Suc k)"
    using k(1) by (simp add: read_slices_def upt_conv_Cons)
  moreover have "bit_reads (read_slice b) = 1" for b
    by (simp add: read_slice_def bit_reads_def)
  ultimately show ?case using Suc.hyps(1)[OF k(2,3)] k by simp
qed

lemma bit_reads_session: "bit_reads (read_session_events addr dev) = 72"
  by (simp add: read_session_events_def bit_reads_reads byte_slices_def del: bits_slices.simps)

lemma read_session_concrete:
  assumes "length (theCode s) = stackSize" and "length addr = 8" and "length buf = 9"
    and "length dev = 9" and "sample_count (busLog s) = 0"
  shows "\<exists>s0 s1 s2. readScratchpadAsync addr buf s = Inr s0
     \<and> interrupts 158 (scratchpad_device dev) s0 = Some (Inr s1)
     \<and> status s1 = StillBusy
     \<and> interrupts 159 (scratchpad_device dev) s0 = Some (Inr s2)
     \<and> sPad s2 = dev \<and> status s2 = 0 \<and> topOfStack s2 = 0
     \<and> busLog s2 = busLog s @ read_session_events addr dev @ [TimerWait 255]"
proof -
  let ?line = "scratchpad_device dev"
  let ?m = "(machine_of [I_ReadScratchPad, I_ClearBusyStatus] s)
                   \<lparr>m_status := StillBusy, m_addr := addr, m_pad := buf\<rparr>"
  from readScratchpadAsync_decodes[OF assms(1), of addr buf] obtain s0 where
    s0: "readScratchpadAsync addr buf s = Inr s0" "decodes s0 ?m" by blast
  have snd: "sound ?m"
    using assms(2,3) by (simp add: sound_def machine_of_def stackSize_def)
  have pm: "prog ?m = [I_ReadScratchPad, I_ClearBusyStatus]" "length (m_addr ?m) = 8"
    "length (m_pad ?m) = 9" "sample_count (m_log ?m) = 0"
    using assms by (simp_all add: machine_of_def)
  let ?m1 = "?m\<lparr>prog := [I_ClearBusyStatus], m_receive := 0, m_index := 8, m_pad := dev,
             m_log := m_log ?m @ read_session_events (m_addr ?m) dev\<rparr>"
  have t1: "tinterrupts 158 ?line ?m = ?m1"
    by (rule read_session_machine[OF pm(1,2,3) assms(4) pm(4)])
  have "tinterrupts 159 ?line ?m = tinterrupts 1 ?line (tinterrupts 158 ?line ?m)"
    using tinterrupts_add[of 158 1 ?line ?m] by simp
  also have "\<dots> = tisr ?line ?m1" by (simp add: t1)
  also have "\<dots> = ?m1\<lparr>prog := [], m_status := m_status ?m1 AND NOT StillBusy,
       m_log := m_log ?m1 @ [TimerWait 255]\<rparr>"
    by (rule tisr_ClearBusy_end) simp
  finally have t2: "tinterrupts 159 ?line ?m = ?m1\<lparr>prog := [],
       m_status := m_status ?m1 AND NOT StillBusy, m_log := m_log ?m1 @ [TimerWait 255]\<rparr>" .
  from interrupts_sim[OF s0(2) snd, of 158 ?line] t1 obtain s1 where
    s1: "interrupts 158 ?line s0 = Some (Inr s1)" "decodes s1 ?m1" by auto
  from interrupts_sim[OF s0(2) snd, of 159 ?line] t2 obtain s2 where
    s2: "interrupts 159 ?line s0 = Some (Inr s2)"
      "decodes s2 (?m1\<lparr>prog := [], m_status := m_status ?m1 AND NOT StillBusy,
          m_log := m_log ?m1 @ [TimerWait 255]\<rparr>)" by auto
  from s1(2) have a: "status s1 = StillBusy" by (simp add: decodes_def machine_of_def)
  from s2(2) have b: "sPad s2 = dev" "status s2 = 0"
    "busLog s2 = busLog s @ read_session_events addr dev @ [TimerWait 255]"
    by (simp_all add: decodes_def machine_of_def StillBusy_def)
  from decodes_empty[OF s2(2)] have c: "topOfStack s2 = 0" by simp
  from s0(1) s1(1) a s2(1) b c show ?thesis by blast
qed

text \<open>
  Claim C7. One turn of the loop with \<open>ReadRemainingBits\<close> and the bit index \<open>p\<close> on
  top reads one bit from the bus and sets bit \<open>p mod 8\<close> of the receive register when
  it is high; when \<open>p + 1\<close> is a multiple of 8 the register is stored in the scratchpad
  at \<open>p div 8\<close> and cleared. A session started by \<open>readScratchpadAsync\<close> with a device
  that supplies the 9 bytes \<open>dev\<close> is still busy after 158 timer interrupts and has
  drained after 159: the buffer is \<open>dev\<close>, the status is 0, the stack is empty, and the
  log holds the two resets, the 10 bytes sent and exactly 72 bit reads.
\<close>

theorem read_scratchpad_session:
  "(stack_ok t \<and> 2 \<le> unat (topOfStack t)
      \<and> theCode t ! (unat (topOfStack t) - 1) = ReadRemainingBits
      \<and> theCode t ! (unat (topOfStack t) - 2) = p
      \<and> unat p < 72 \<and> length (sPad t) = 9 \<longrightarrow>
      (\<exists>t'. step line t = Inr (Continue t')
         \<and> busLog t' = busLog t @ [PulledLow, DelayUs 6, Released, DelayUs 9,
              Sampled (line (busLog t @ [PulledLow, DelayUs 6, Released, DelayUs 9]))]
         \<and> (let reg = (if line (busLog t @ [PulledLow, DelayUs 6, Released, DelayUs 9])
                        then receiveRegister t OR push_bit (unat p mod 8) 1
                        else receiveRegister t)
            in if Suc (unat p) mod 8 = 0
               then sPad t' = (sPad t)[unat p div 8 := reg] \<and> receiveRegister t' = 0
               else sPad t' = sPad t \<and> receiveRegister t' = reg)))
   \<and> (length (theCode s) = stackSize \<and> length addr = 8 \<and> length buf = 9
      \<and> length dev = 9 \<and> sample_count (busLog s) = 0 \<longrightarrow>
      (\<exists>s0 s1 s2. readScratchpadAsync addr buf s = Inr s0
         \<and> interrupts 158 (scratchpad_device dev) s0 = Some (Inr s1)
         \<and> status s1 = StillBusy
         \<and> interrupts 159 (scratchpad_device dev) s0 = Some (Inr s2)
         \<and> sPad s2 = dev \<and> status s2 = 0 \<and> topOfStack s2 = 0
         \<and> busLog s2 = busLog s @ read_session_events addr dev @ [TimerWait 255]
         \<and> bit_reads (read_session_events addr dev) = 72))"
  using read_bit_folding[of t p line] read_session_concrete[of s addr buf dev]
    bit_reads_session[of addr dev]
  by blast

theorem read_scratchpad_session_witness:
  "stack_ok read_pending \<and> 2 \<le> unat (topOfStack read_pending)
   \<and> theCode read_pending ! (unat (topOfStack read_pending) - 1) = ReadRemainingBits
   \<and> theCode read_pending ! (unat (topOfStack read_pending) - 2) = 15
   \<and> unat (15::byte) < 72 \<and> length (sPad read_pending) = 9
   \<and> (\<exists>t'. step no_device_line read_pending = Inr (Continue t')
         \<and> sPad t' = (replicate 9 0)[1 := 0x96] \<and> receiveRegister t' = 0)
   \<and> length (theCode power_on) = stackSize \<and> length some_address = 8
   \<and> length (replicate 9 (0::byte)) = 9 \<and> length some_scratchpad = 9
   \<and> sample_count (busLog power_on) = 0
   \<and> (\<exists>s0 s2. readScratchpadAsync some_address (replicate 9 0) power_on = Inr s0
         \<and> interrupts 159 (scratchpad_device some_scratchpad) s0 = Some (Inr s2)
         \<and> sPad s2 = some_scratchpad \<and> status s2 = 0 \<and> topOfStack s2 = 0)"
proof -
  have a: "stack_ok read_pending" "2 \<le> unat (topOfStack read_pending)"
    "theCode read_pending ! (unat (topOfStack read_pending) - 1) = ReadRemainingBits"
    "theCode read_pending ! (unat (topOfStack read_pending) - 2) = 15"
    "unat (15::byte) < 72" "length (sPad read_pending) = 9"
    by (simp_all add: read_pending_def power_on_def stack_ok_def stackSize_def
        ReadRemainingBits_def)
  have b: "length some_address = 8" "length (replicate 9 (0::byte)) = 9"
    "length some_scratchpad = 9" "sample_count (busLog power_on) = 0"
    by (simp_all add: some_address_def some_scratchpad_def power_on_def)
  have c: "no_device_line (busLog read_pending @ [PulledLow, DelayUs 6, Released, DelayUs 9])"
    "receiveRegister read_pending = 0x16" "sPad read_pending = replicate 9 0"
    by (simp_all add: no_device_line_def read_pending_def power_on_def)
  note t = read_scratchpad_session[of read_pending 15 no_device_line power_on some_address
      "replicate 9 0" some_scratchpad]
  from t a have "\<exists>t'. step no_device_line read_pending = Inr (Continue t')
         \<and> busLog t' = busLog read_pending @ [PulledLow, DelayUs 6, Released, DelayUs 9,
              Sampled (no_device_line (busLog read_pending @ [PulledLow, DelayUs 6, Released, DelayUs 9]))]
         \<and> (let reg = (if no_device_line (busLog read_pending @ [PulledLow, DelayUs 6, Released, DelayUs 9])
                        then receiveRegister read_pending OR push_bit (unat (15::byte) mod 8) 1
                        else receiveRegister read_pending)
            in if Suc (unat (15::byte)) mod 8 = 0
               then sPad t' = (sPad read_pending)[unat (15::byte) div 8 := reg] \<and> receiveRegister t' = 0
               else sPad t' = sPad read_pending \<and> receiveRegister t' = reg)"
    by blast
  then have d: "\<exists>t'. step no_device_line read_pending = Inr (Continue t')
         \<and> sPad t' = (replicate 9 0)[1 := 0x96] \<and> receiveRegister t' = 0"
    using c by (auto simp: Let_def)
  from t power_on_code b have "\<exists>s0 s1 s2. readScratchpadAsync some_address (replicate 9 0) power_on = Inr s0
         \<and> interrupts 158 (scratchpad_device some_scratchpad) s0 = Some (Inr s1)
         \<and> status s1 = StillBusy
         \<and> interrupts 159 (scratchpad_device some_scratchpad) s0 = Some (Inr s2)
         \<and> sPad s2 = some_scratchpad \<and> status s2 = 0 \<and> topOfStack s2 = 0
         \<and> busLog s2 = busLog power_on @ read_session_events some_address some_scratchpad @ [TimerWait 255]
         \<and> bit_reads (read_session_events some_address some_scratchpad) = 72"
    by blast
  then have e: "\<exists>s0 s2. readScratchpadAsync some_address (replicate 9 0) power_on = Inr s0
         \<and> interrupts 159 (scratchpad_device some_scratchpad) s0 = Some (Inr s2)
         \<and> sPad s2 = some_scratchpad \<and> status s2 = 0 \<and> topOfStack s2 = 0"
    by blast
  from a d power_on_code b e show ?thesis by blast
qed

section \<open>The busy flag\<close>

lemma status_bits:
  "(x OR NoDeviceOnBus) AND StillBusy = x AND StillBusy"
  "(x AND NOT DevicesAreBusy) AND StillBusy = x AND StillBusy"
  "(x AND NOT StillBusy) AND StillBusy = 0"
  "StillBusy AND StillBusy = StillBusy"
  for x :: byte
  by (simp_all add: status_defs bit.conj_disj_distrib2 and.assoc)

lemma texec_busy:
  assumes "i \<noteq> I_ClearBusyStatus" "rest \<noteq> []" "last rest = I_ClearBusyStatus"
    "I_ClearBusyStatus \<notin> set (butlast rest)" "m_status m AND StillBusy = StillBusy"
  shows "busy_until_drained (out_state (texec line i rest m))"
  using assms
  by (cases i) (simp_all add: busy_until_drained_def Let_def status_bits butlast_append)

lemma tstep_busy:
  assumes "busy_until_drained m"
  shows "busy_until_drained (out_state (tstep line m))"
proof (cases "prog m")
  case Nil
  with assms show ?thesis by (simp add: tstep_def)
next
  case (Cons i rest)
  show ?thesis
  proof (cases "rest = []")
    case True
    with assms Cons show ?thesis
      by (simp add: tstep_def busy_until_drained_def status_bits)
  next
    case False
    with assms Cons have "i \<noteq> I_ClearBusyStatus" "last rest = I_ClearBusyStatus"
      "I_ClearBusyStatus \<notin> set (butlast rest)" "m_status m AND StillBusy = StillBusy"
      by (auto simp: busy_until_drained_def)
    from texec_busy[OF this(1) False this(2,3,4)] Cons show ?thesis by (simp add: tstep_def)
  qed
qed

lemma tslice_busy:
  "busy_until_drained m \<Longrightarrow> busy_until_drained (snd (tslice line m))"
proof (induction line m rule: tslice.induct)
  case (1 line m)
  show ?case
  proof (cases "tstep line m")
    case (Continue m')
    with tstep_busy[OF "1.prems", of line] have "busy_until_drained m'" by simp
    from "1.IH"[OF Continue this] Continue show ?thesis by (subst tslice.simps) simp
  next
    case (Return t m')
    with tstep_busy[OF "1.prems", of line] show ?thesis by (subst tslice.simps) simp
  qed
qed

lemma busy_log_update [simp]: "busy_until_drained (m\<lparr>m_log := l\<rparr>) = busy_until_drained m"
  by (simp add: busy_until_drained_def)

lemma tinterrupts_busy:
  "busy_until_drained m \<Longrightarrow> busy_until_drained (tinterrupts n line m)"
proof (induction n arbitrary: m)
  case 0
  then show ?case by simp
next
  case (Suc n)
  from tslice_busy[OF Suc.prems, of line] have "busy_until_drained (tisr line m)"
    by (simp add: tisr_def split_beta)
  from Suc.IH[OF this] show ?case by simp
qed

lemma encs_empty: "encs p = [] \<longleftrightarrow> p = []"
proof (cases p)
  case Nil
  then show ?thesis by simp
next
  case (Cons i rest)
  then show ?thesis by (cases i) simp_all
qed

lemma last_encs: "p \<noteq> [] \<Longrightarrow> last p = I_ClearBusyStatus \<Longrightarrow> last (encs p) = ClearBusyStatus"
proof (induction p)
  case Nil
  then show ?case by simp
next
  case (Cons i p)
  show ?case
  proof (cases "p = []")
    case True
    with Cons.prems show ?thesis by simp
  next
    case False
    with Cons have "last (encs p) = ClearBusyStatus" by simp
    moreover from False have "encs p \<noteq> []" by (simp add: encs_empty)
    ultimately show ?thesis by simp
  qed
qed

lemma busy_concrete:
  assumes "decodes s m" "busy_until_drained m"
  shows "if topOfStack s = 0 then status s AND StillBusy = 0
         else status s AND StillBusy = StillBusy \<and> theCode s ! 0 = ClearBusyStatus"
proof (cases "prog m = []")
  case True
  with assms show ?thesis
    by (simp add: decodes_def busy_until_drained_def top_zero_iff)
next
  case False
  with assms(1) have ne: "stk s \<noteq> []" by (simp add: decodes_def encs_empty)
  with assms(1) have t: "topOfStack s \<noteq> 0" by (simp add: decodes_def top_zero_iff)
  from assms False have "last (stk s) = ClearBusyStatus"
    by (simp add: decodes_def busy_until_drained_def last_encs)
  moreover have "last (stk s) = theCode s ! 0"
  proof -
    from assms(1) have "length (theCode s) = stackSize" by (simp add: decodes_def stack_ok_def)
    with t have "take (unat (topOfStack s)) (theCode s) \<noteq> []"
      by (auto simp: unat_eq_0 stackSize_def)
    then show ?thesis
      by (simp add: stk_def last_rev hd_conv_nth)
  qed
  ultimately show ?thesis using assms t False by (simp add: decodes_def busy_until_drained_def)
qed

lemma live_stack_decodes: "decodes s m \<Longrightarrow> live_stack s = rev (encs (prog m))"
  by (simp add: live_stack_def decodes_stack)

lemma session_busy:
  assumes "decodes s0 m" "sound m" "busy_until_drained m"
  shows "\<exists>s'. interrupts n line s0 = Some (Inr s') \<and> busy_flag_tracks_stack s'"
proof -
  from interrupts_sim[OF assms(1,2), of n line] obtain s' where
    s': "interrupts n line s0 = Some (Inr s')" "decodes s' (tinterrupts n line m)" by blast
  from busy_concrete[OF s'(2) tinterrupts_busy[OF assms(3)]] s'(1) show ?thesis
    by (auto simp: busy_flag_tracks_stack_def)
qed

lemma reset_session_busy:
  assumes "length (theCode s) = stackSize"
  shows "\<exists>s0. resetAsync s = Inr s0 \<and> live_stack s0 = [ClearBusyStatus, Reset]
      \<and> status s0 = StillBusy
      \<and> (\<exists>s'. interrupts n line s0 = Some (Inr s') \<and> busy_flag_tracks_stack s')"
proof -
  let ?m = "(machine_of [I_Reset, I_ClearBusyStatus] s)\<lparr>m_status := StillBusy\<rparr>"
  from resetAsync_decodes[OF assms] obtain s0 where
    s0: "resetAsync s = Inr s0" "decodes s0 ?m" by blast
  have a: "sound ?m" by simp
  have b: "busy_until_drained ?m"
    by (simp add: busy_until_drained_def machine_of_def status_bits)
  from s0(2) have c: "status s0 = StillBusy" by (simp add: decodes_def machine_of_def)
  from live_stack_decodes[OF s0(2)] have d: "live_stack s0 = [ClearBusyStatus, Reset]"
    by (simp add: machine_of_def)
  from session_busy[OF s0(2) a b, of n line] s0(1) c d show ?thesis by blast
qed

lemma read_session_busy:
  assumes "length (theCode s) = stackSize" "length addr = 8" "length buf = 9"
  shows "\<exists>s0. readScratchpadAsync addr buf s = Inr s0
      \<and> live_stack s0 = [ClearBusyStatus, ReadScratchPad] \<and> status s0 = StillBusy
      \<and> (\<exists>s'. interrupts n line s0 = Some (Inr s') \<and> busy_flag_tracks_stack s')"
proof -
  let ?m = "(machine_of [I_ReadScratchPad, I_ClearBusyStatus] s)
                   \<lparr>m_status := StillBusy, m_addr := addr, m_pad := buf\<rparr>"
  from readScratchpadAsync_decodes[OF assms(1), of addr buf] obtain s0 where
    s0: "readScratchpadAsync addr buf s = Inr s0" "decodes s0 ?m" by blast
  have a: "sound ?m" using assms(2,3) by (simp add: sound_def machine_of_def stackSize_def)
  have b: "busy_until_drained ?m"
    by (simp add: busy_until_drained_def machine_of_def status_bits)
  from s0(2) have c: "status s0 = StillBusy" by (simp add: decodes_def machine_of_def)
  from live_stack_decodes[OF s0(2)] have d: "live_stack s0 = [ClearBusyStatus, ReadScratchPad]"
    by (simp add: machine_of_def)
  from session_busy[OF s0(2) a b, of n line] s0(1) c d show ?thesis by blast
qed

lemma test_session_busy:
  assumes "length (theCode s) = stackSize"
  shows "\<exists>s0. doTestTimings r s = Inr s0
      \<and> live_stack s0 = [ClearBusyStatus, BusRelease, ucast (drop_bit 8 r),
                          ucast (r AND 0xFF), TestTimings]
      \<and> status s0 = StillBusy
      \<and> (\<exists>s'. interrupts n line s0 = Some (Inr s') \<and> busy_flag_tracks_stack s')"
proof -
  let ?m = "(machine_of [I_TestTimings (ucast (r AND 0xFF)) (ucast (drop_bit 8 r)),
                              I_BusRelease, I_ClearBusyStatus] s)
                   \<lparr>m_status := StillBusy\<rparr>"
  from doTestTimings_decodes[OF assms, of r] obtain s0 where
    s0: "doTestTimings r s = Inr s0" "decodes s0 ?m" by blast
  have a: "sound ?m" by (simp add: sound_def machine_of_def stackSize_def)
  have b: "busy_until_drained ?m"
    by (simp add: busy_until_drained_def machine_of_def status_bits)
  from s0(2) have c: "status s0 = StillBusy" by (simp add: decodes_def machine_of_def)
  from live_stack_decodes[OF s0(2)] have d: "live_stack s0 =
      [ClearBusyStatus, BusRelease, ucast (drop_bit 8 r), ucast (r AND 0xFF), TestTimings]"
    by (simp add: machine_of_def)
  from session_busy[OF s0(2) a b, of n line] s0(1) c d show ?thesis by blast
qed

lemma convert_session_stack:
  assumes "length (theCode s) = stackSize"
  shows "\<exists>s0. convertAllTemperaturesAsync s = Inr s0
      \<and> live_stack s0 = [WaitForBusRelease, STARTCONVO, 8, SendRemainingBits,
                          SKIPROMWILDCARD, 8, SendRemainingBits, Reset]
      \<and> status s0 = DevicesAreBusy"
proof -
  from convertAllTemperaturesAsync_decodes[OF assms] obtain s0 where
    s0: "convertAllTemperaturesAsync s = Inr s0"
      "decodes s0 ((machine_of [I_Reset, I_SendRemainingBits 8 SKIPROMWILDCARD,
                              I_SendRemainingBits 8 STARTCONVO, I_WaitForBusRelease] s)
                   \<lparr>m_status := DevicesAreBusy\<rparr>)" by blast
  from s0(2) have c: "status s0 = DevicesAreBusy" by (simp add: decodes_def machine_of_def)
  from live_stack_decodes[OF s0(2)] c s0(1) show ?thesis by (simp add: machine_of_def)
qed

text \<open>
  Claim C1, as the code has it. \<open>resetAsync\<close>, \<open>readScratchpadAsync\<close> and
  \<open>doTestTimings\<close> clear the stack, set the status to \<open>StillBusy\<close> and push
  \<open>ClearBusyStatus\<close> first, below the opcodes of the session. After any number of timer
  interrupts \<open>StillBusy\<close> is set with \<open>ClearBusyStatus\<close> at the bottom of the stack as
  long as the stack is not empty, and is clear once it is.
  \<open>convertAllTemperaturesAsync\<close> clears the stack, sets the status to \<open>DevicesAreBusy\<close>
  and pushes \<open>WaitForBusRelease\<close> first; it pushes no \<open>ClearBusyStatus\<close>.
\<close>

theorem sessions_end_with_ClearBusyStatus:
  assumes "length (theCode s) = stackSize" and "length addr = 8" and "length buf = 9"
  shows "(\<exists>s0. resetAsync s = Inr s0 \<and> live_stack s0 = [ClearBusyStatus, Reset]
            \<and> status s0 = StillBusy
            \<and> (\<exists>s'. interrupts n line s0 = Some (Inr s') \<and> busy_flag_tracks_stack s'))
    \<and> (\<exists>s0. readScratchpadAsync addr buf s = Inr s0
            \<and> live_stack s0 = [ClearBusyStatus, ReadScratchPad] \<and> status s0 = StillBusy
            \<and> (\<exists>s'. interrupts n line s0 = Some (Inr s') \<and> busy_flag_tracks_stack s'))
    \<and> (\<exists>s0. doTestTimings r s = Inr s0
            \<and> live_stack s0 = [ClearBusyStatus, BusRelease, ucast (drop_bit 8 r),
                                ucast (r AND 0xFF), TestTimings]
            \<and> status s0 = StillBusy
            \<and> (\<exists>s'. interrupts n line s0 = Some (Inr s') \<and> busy_flag_tracks_stack s'))
    \<and> (\<exists>s0. convertAllTemperaturesAsync s = Inr s0
            \<and> live_stack s0 = [WaitForBusRelease, STARTCONVO, 8, SendRemainingBits,
                                SKIPROMWILDCARD, 8, SendRemainingBits, Reset]
            \<and> status s0 = DevicesAreBusy)"
  using reset_session_busy[OF assms(1), of n line] read_session_busy[OF assms, of n line]
    test_session_busy[OF assms(1), of r n line] convert_session_stack[OF assms(1)]
  by blast

text \<open>
  Claim C1 as stated fails for \<open>convertAllTemperaturesAsync\<close>: from the initial state
  its stack is \<open>WaitForBusRelease\<close> and the two bytes to send below \<open>Reset\<close>, with no
  \<open>ClearBusyStatus\<close> on it.
\<close>

theorem convert_all_counterexample:
  "convert_all_stack = Inr [WaitForBusRelease, STARTCONVO, 8, SendRemainingBits,
                            SKIPROMWILDCARD, 8, SendRemainingBits, Reset]
   \<and> ClearBusyStatus \<notin> set [WaitForBusRelease, STARTCONVO, 8, SendRemainingBits,
                            SKIPROMWILDCARD, 8, SendRemainingBits, Reset]"
proof -
  from convert_session_stack[OF power_on_code] show ?thesis
    by (auto simp: convert_all_stack_def opcode_defs command_defs)
qed

theorem sessions_end_with_ClearBusyStatus_witness:
  "length (theCode power_on) = stackSize \<and> length some_address = 8
   \<and> length (replicate 9 (0::byte)) = 9
   \<and> (\<exists>s0. readScratchpadAsync some_address (replicate 9 0) power_on = Inr s0
        \<and> live_stack s0 = [ClearBusyStatus, ReadScratchPad] \<and> status s0 = StillBusy
        \<and> (\<exists>s'. interrupts 159 (scratchpad_device some_scratchpad) s0 = Some (Inr s')
              \<and> busy_flag_tracks_stack s'))"
proof -
  have a: "length some_address = 8" "length (replicate 9 (0::byte)) = 9"
    by (simp_all add: some_address_def)
  from sessions_end_with_ClearBusyStatus[OF power_on_code a,
      of 159 "scratchpad_device some_scratchpad" 0]
  show ?thesis using power_on_code a by blast
qed

end
